theory Spec2Isabelle
  imports Main "HOL-Library.Word"
begin

section \<open>The environment of \<open>t/cli.c\<close>\<close>

text \<open>
  \<open>t/cli.c\<close> is a driver: every interesting step is a call into the operating system
  (\<open>read\<close>, \<open>write\<close>, \<open>select\<close>, \<open>socket\<close>, \<open>connect\<close>) or into the TLS engine
  (\<open>ptls_handshake\<close>, \<open>ptls_receive\<close>, \<open>ptls_send\<close>). The environment is modelled as a
  simulated one: for each kind of call the world holds a script, the list of the answers
  the successive calls will get. A call takes the head of its script; a call that
  finds its script empty has no answer, and the function that made it has not returned by
  the end of the simulated trace: its value is \<open>None\<close>. Every call is appended to the
  trace of the world with its arguments and its answer, so that the order of the effects of
  the program can be stated.
\<close>

type_synonym byte = "8 word"
type_synonym fd = int

text \<open>\<open>EINTR\<close> of \<open>errno.h\<close> (4 on Linux, the BSDs and macOS).\<close>

definition EINTR :: int where
  "EINTR = 4"

text \<open>\<open>size_t\<close> is taken as 64 bits wide; \<open>to_size_t\<close> is the conversion of an
  \<open>ssize_t\<close> to it, with the wrap-around of the negative values written out.\<close>

definition SIZE_MOD :: int where
  "SIZE_MOD = 2 ^ 64"

definition to_size_t :: "int \<Rightarrow> nat" where
  "to_size_t i = (if 0 \<le> i then nat i else nat (i + SIZE_MOD))"

text \<open>What a descriptor answers to one \<open>write\<close>: it accepts up to \<open>n\<close> bytes (a short
  write when \<open>n\<close> is less than the length offered, a return value of 0 when \<open>n = 0\<close>), or
  it fails with \<open>-1\<close> and sets \<open>errno\<close>.\<close>

datatype wresult = Accept nat | WFail int

text \<open>What a descriptor answers to one \<open>read\<close>: the bytes it has (the call returns as
  many of them as the buffer takes; none is end of file), or it fails with \<open>-1\<close> and
  sets \<open>errno\<close>.\<close>

datatype rresult = Deliver "byte list" | RFail int

text \<open>What one \<open>select\<close> answers: the descriptors that are ready for reading, or
  \<open>-1\<close> with \<open>errno\<close> set.\<close>

datatype sresult = Ready "fd list" | SFail int

text \<open>What the engine answers: its return code, the length it stores through the
  \<open>size_t *\<close> argument, and the bytes it appends to the \<open>ptls_buffer_t\<close> it is given.\<close>

record engine_reply =
  reply_ret :: int
  reply_consumed :: nat
  reply_output :: "byte list"

datatype event =
    SysWrite fd "byte list" int int
      \<comment> \<open>\<open>write\<close>: descriptor, bytes transferred, return value, \<open>errno\<close> after the call\<close>
  | SysRead fd "byte list" int int
      \<comment> \<open>\<open>read\<close>: descriptor, bytes stored in the buffer, return value, \<open>errno\<close> after\<close>
  | SysSelect int int "fd list"
      \<comment> \<open>\<open>select\<close>: \<open>nfds\<close>, return value, descriptors left in \<open>readfds\<close>\<close>
  | SysSocket int
  | SysConnect fd int
  | Perror string
  | Stderr string int
      \<comment> \<open>\<open>fprintf(stderr, "...:%d\\n", ret)\<close>: the text before the number, the number\<close>
  | PtlsNew "string option"
  | PtlsFree
  | PtlsBufferDispose
  | PtlsHandshake "byte list" int nat
      \<comment> \<open>input offered (\<open>*inlen\<close> bytes at \<open>input\<close>), return code, \<open>*inlen\<close> on exit\<close>
  | PtlsReceive "byte list" int nat "byte list"
      \<comment> \<open>input offered, return code, \<open>*consumed\<close> on exit, plaintext appended\<close>
  | PtlsSend "byte list" nat int
      \<comment> \<open>input offered, the length argument, return code\<close>

record world =
  errno :: int
  wr_script :: "fd \<Rightarrow> wresult list"
  rd_script :: "fd \<Rightarrow> rresult list"
  select_script :: "sresult list"
  socket_script :: "int list"
  connect_script :: "int list"
  handshake_script :: "engine_reply list"
  receive_script :: "engine_reply list"
  send_script :: "engine_reply list"
  trace :: "event list"

definition emit :: "event \<Rightarrow> world \<Rightarrow> world" where
  "emit e w = w\<lparr>trace := trace w @ [e]\<rparr>"

text \<open>The events that create or release the engine instance and the outbound buffer.\<close>

fun lifecycle :: "event \<Rightarrow> bool" where
  "lifecycle (PtlsNew n) = True"
| "lifecycle PtlsFree = True"
| "lifecycle PtlsBufferDispose = True"
| "lifecycle e = False"

text \<open>A world \<open>w'\<close> lies after \<open>w\<close> in the course of a session when no script has grown,
  the trace of \<open>w\<close> is a prefix of the trace of \<open>w'\<close>, and no event added in between
  creates or releases the engine or the buffer. The events added are \<open>new_events w w'\<close>.\<close>

definition advances :: "world \<Rightarrow> world \<Rightarrow> bool" where
  "advances w w' \<longleftrightarrow>
     (\<forall>f. length (wr_script w' f) \<le> length (wr_script w f)) \<and>
     (\<forall>f. length (rd_script w' f) \<le> length (rd_script w f)) \<and>
     length (select_script w') \<le> length (select_script w) \<and>
     length (socket_script w') \<le> length (socket_script w) \<and>
     length (connect_script w') \<le> length (connect_script w) \<and>
     length (handshake_script w') \<le> length (handshake_script w) \<and>
     length (receive_script w') \<le> length (receive_script w) \<and>
     length (send_script w') \<le> length (send_script w) \<and>
     take (length (trace w)) (trace w') = trace w \<and>
     (\<forall>e \<in> set (drop (length (trace w)) (trace w')). \<not> lifecycle e)"

definition new_events :: "world \<Rightarrow> world \<Rightarrow> event list" where
  "new_events w w' = drop (length (trace w)) (trace w')"

subsection \<open>System calls\<close>

text \<open>A pointer into a byte array is the list of the bytes from the pointer on:
  \<open>p + n\<close> is \<open>drop n p\<close>, and the \<open>len\<close> bytes at \<open>p\<close> are \<open>take len p\<close>.\<close>

definition sys_write :: "fd \<Rightarrow> byte list \<Rightarrow> nat \<Rightarrow> world \<Rightarrow> (int \<times> world) option" where
  "sys_write f data len w =
     (case wr_script w f of
        [] \<Rightarrow> None
      | Accept n # rest \<Rightarrow>
          let k = min n len;
              w1 = w\<lparr>wr_script := (wr_script w)(f := rest)\<rparr>
          in Some (int k, emit (SysWrite f (take k (take len data)) (int k) (errno w1)) w1)
      | WFail e # rest \<Rightarrow>
          let w1 = w\<lparr>wr_script := (wr_script w)(f := rest), errno := e\<rparr>
          in Some (-1, emit (SysWrite f [] (-1) e) w1))"

text \<open>\<open>read(f, buf, cap)\<close> returns the new contents of the buffer with the return
  value.\<close>

definition sys_read :: "fd \<Rightarrow> byte list \<Rightarrow> nat \<Rightarrow> world \<Rightarrow> ((int \<times> byte list) \<times> world) option" where
  "sys_read f buf cap w =
     (case rd_script w f of
        [] \<Rightarrow> None
      | Deliver bs # rest \<Rightarrow>
          let got = take cap bs;
              w1 = w\<lparr>rd_script := (rd_script w)(f := rest)\<rparr>
          in Some ((int (length got), got @ drop (length got) buf),
                   emit (SysRead f got (int (length got)) (errno w1)) w1)
      | RFail e # rest \<Rightarrow>
          let w1 = w\<lparr>rd_script := (rd_script w)(f := rest), errno := e\<rparr>
          in Some ((-1, buf), emit (SysRead f [] (-1) e) w1))"

lemma advances_refl: "advances w w"
  by (simp add: advances_def)

lemma advances_trans: "advances w w1 \<Longrightarrow> advances w1 w2 \<Longrightarrow> advances w w2"
proof -
  assume a: "advances w w1" and b: "advances w1 w2"
  from a obtain e1 where e1: "trace w1 = trace w @ e1" "\<forall>e \<in> set e1. \<not> lifecycle e"
    unfolding advances_def by (metis append_take_drop_id)
  from b obtain e2 where e2: "trace w2 = trace w1 @ e2" "\<forall>e \<in> set e2. \<not> lifecycle e"
    unfolding advances_def by (metis append_take_drop_id)
  have "take (length (trace w)) (trace w2) = trace w"
    and "\<forall>e \<in> set (drop (length (trace w)) (trace w2)). \<not> lifecycle e"
    using e1 e2 by auto
  with a b show ?thesis
    unfolding advances_def by (auto intro: order_trans)
qed

lemma advances_trace: "advances w w' \<Longrightarrow> trace w' = trace w @ new_events w w'"
  by (metis advances_def new_events_def append_take_drop_id)

lemma new_events_trans:
  "advances w w1 \<Longrightarrow> advances w1 w2 \<Longrightarrow> new_events w w2 = new_events w w1 @ new_events w1 w2"
  using advances_trace[of w w1] advances_trace[of w1 w2] advances_trace[of w w2] advances_trans[of w w1 w2]
  by simp

lemma sys_write_advances:
  "sys_write f data len w = Some (r, w1) \<Longrightarrow> advances w w1"
  by (auto simp: sys_write_def emit_def Let_def advances_def split: list.splits wresult.splits)

section \<open>\<open>write_all\<close>\<close>

text \<open>The inner loop of \<open>write_all\<close>:
  \<^verbatim>\<open>while ((wret = write(fd, data, len)) == -1 && errno == EINTR) ;\<close>
  In \<open>write_all\<close> below, \<open>len -= wret\<close> is a subtraction of naturals: \<open>write\<close> never
  returns more than \<open>len\<close>, so it does not wrap.\<close>

function write_retry :: "fd \<Rightarrow> byte list \<Rightarrow> nat \<Rightarrow> world \<Rightarrow> (int \<times> world) option" where
  "write_retry f data len w =
     (case sys_write f data len w of
        None \<Rightarrow> None
      | Some (wret, w1) \<Rightarrow>
          if wret = -1 \<and> errno w1 = EINTR then write_retry f data len w1
          else Some (wret, w1))"
  by pat_completeness auto

lemma sys_write_script:
  "sys_write f data len w = Some (r, w1) \<Longrightarrow> wr_script w1 f = tl (wr_script w f) \<and> wr_script w f \<noteq> []"
  by (auto simp: sys_write_def emit_def Let_def split: list.splits wresult.splits)

termination write_retry
  by (relation "measure (\<lambda>(f, data, len, w). length (wr_script w f))")
     (auto dest!: sys_write_script)

declare write_retry.simps [simp del]

lemma sys_write_strict:
  "sys_write f data len w = Some (r, w1) \<Longrightarrow> length (wr_script w1 f) < length (wr_script w f)"
  by (auto simp: sys_write_def emit_def Let_def split: list.splits wresult.splits)

lemma write_retry_advances:
  "write_retry f data len w = Some (r, w') \<Longrightarrow>
     advances w w' \<and> length (wr_script w' f) < length (wr_script w f)"
proof (induction f data len w rule: write_retry.induct)
  case (1 f data len w)
  from "1.prems" obtain wret w1 where sw: "sys_write f data len w = Some (wret, w1)"
    by (subst (asm) write_retry.simps) (auto split: option.splits)
  note a = sys_write_advances[OF sw] and s = sys_write_strict[OF sw]
  show ?case
  proof (cases "wret = -1 \<and> errno w1 = EINTR")
    case True
    with "1.prems" sw have "write_retry f data len w1 = Some (r, w')"
      by (subst (asm) write_retry.simps) simp
    from "1.IH"[OF sw refl True this] a s show ?thesis
      by (auto intro: advances_trans)
  next
    case False
    with "1.prems" sw have "w' = w1"
      by (subst (asm) write_retry.simps) auto
    with a s show ?thesis by simp
  qed
qed

function write_all :: "fd \<Rightarrow> byte list \<Rightarrow> nat \<Rightarrow> world \<Rightarrow> (int \<times> world) option" where
  "write_all f data len w =
     (if len \<noteq> 0 then
        (case write_retry f data len w of
           None \<Rightarrow> None
         | Some (wret, w1) \<Rightarrow>
             if wret \<le> 0 then Some (-1, w1)
             else write_all f (drop (nat wret) data) (len - nat wret) w1)
      else Some (0, w))"
  by pat_completeness auto
termination
  by (relation "measure (\<lambda>(f, data, len, w). length (wr_script w f))")
     (auto dest!: write_retry_advances)

declare write_all.simps [simp del]

lemma write_all_advances:
  "write_all f data len w = Some (r, w') \<Longrightarrow> advances w w'"
proof (induction f data len w rule: write_all.induct)
  case (1 f data len w)
  show ?case
  proof (cases "len = 0")
    case True
    with "1.prems" show ?thesis
      by (subst (asm) write_all.simps) (simp add: advances_refl)
  next
    case False
    with "1.prems" obtain wret w1 where wr: "write_retry f data len w = Some (wret, w1)"
      by (subst (asm) write_all.simps) (auto split: option.splits)
    note a = write_retry_advances[OF wr, THEN conjunct1]
    show ?thesis
    proof (cases "wret \<le> 0")
      case True
      with "1.prems" False wr have "w' = w1"
        by (subst (asm) write_all.simps) simp
      with a show ?thesis by simp
    next
      case nonpos: False
      with "1.prems" False wr
      have "write_all f (drop (nat wret) data) (len - nat wret) w1 = Some (r, w')"
        by (subst (asm) write_all.simps) simp
      from "1.IH"[OF False wr refl nonpos this] a show ?thesis
        by (rule advances_trans[rotated])
    qed
  qed
qed

section \<open>The TLS engine\<close>

text \<open>\<open>ptls_buffer_t\<close>: \<open>off\<close> bytes at \<open>base\<close> are pending. The capacity and the
  allocation flag are left out: the buffer grows when the engine pushes more than it
  holds.\<close>

record ptls_buffer =
  base :: "byte list"
  off :: nat

definition ptls_buffer_init :: "byte list \<Rightarrow> ptls_buffer" where
  "ptls_buffer_init smallbuf = \<lparr>base = smallbuf, off = 0\<rparr>"

text \<open>The engine appends its output at \<open>off\<close>.\<close>

definition buffer_push :: "ptls_buffer \<Rightarrow> byte list \<Rightarrow> ptls_buffer" where
  "buffer_push buf bs =
     buf\<lparr>base := take (off buf) (base buf) @ bs @ drop (off buf + length bs) (base buf),
         off := off buf + length bs\<rparr>"

text \<open>Modelled from the spec: \<open>picotls.h\<close> is not among the sources. The handshake step
  answers success (0), in progress, or an error; \<open>0x202\<close> is taken here as the value of
  \<open>PTLS_ERROR_HANDSHAKE_IN_PROGRESS\<close>, and nothing below depends on which value it is.\<close>

definition PTLS_ERROR_HANDSHAKE_IN_PROGRESS :: int where
  "PTLS_ERROR_HANDSHAKE_IN_PROGRESS = 514"

text \<open>The three calls into the engine take the engine's next answer from the script. The
  \<open>ptls_t *\<close> argument is left out: the engine's state is what is left of its scripts.
  \<open>ptls_handshake\<close> and \<open>ptls_receive\<close> return the new value of their \<open>size_t *\<close>
  argument.\<close>

definition ptls_handshake ::
  "ptls_buffer \<Rightarrow> byte list \<Rightarrow> nat \<Rightarrow> world \<Rightarrow> ((int \<times> ptls_buffer \<times> nat) \<times> world) option" where
  "ptls_handshake sendbuf input inlen w =
     (case handshake_script w of
        [] \<Rightarrow> None
      | r # rest \<Rightarrow>
          Some ((reply_ret r, buffer_push sendbuf (reply_output r), reply_consumed r),
                emit (PtlsHandshake (take inlen input) (reply_ret r) (reply_consumed r))
                  (w\<lparr>handshake_script := rest\<rparr>)))"

definition ptls_receive ::
  "ptls_buffer \<Rightarrow> byte list \<Rightarrow> nat \<Rightarrow> world \<Rightarrow> ((int \<times> ptls_buffer \<times> nat) \<times> world) option" where
  "ptls_receive decryptbuf input inlen w =
     (case receive_script w of
        [] \<Rightarrow> None
      | r # rest \<Rightarrow>
          Some ((reply_ret r, buffer_push decryptbuf (reply_output r), reply_consumed r),
                emit (PtlsReceive (take inlen input) (reply_ret r) (reply_consumed r) (reply_output r))
                  (w\<lparr>receive_script := rest\<rparr>)))"

definition ptls_send ::
  "ptls_buffer \<Rightarrow> byte list \<Rightarrow> nat \<Rightarrow> world \<Rightarrow> ((int \<times> ptls_buffer) \<times> world) option" where
  "ptls_send sendbuf input inlen w =
     (case send_script w of
        [] \<Rightarrow> None
      | r # rest \<Rightarrow>
          Some ((reply_ret r, buffer_push sendbuf (reply_output r)),
                emit (PtlsSend (take inlen input) inlen (reply_ret r))
                  (w\<lparr>send_script := rest\<rparr>)))"

definition ptls_new :: "string option \<Rightarrow> world \<Rightarrow> world" where
  "ptls_new server_name w = emit (PtlsNew server_name) w"

definition ptls_free :: "world \<Rightarrow> world" where
  "ptls_free w = emit PtlsFree w"

definition ptls_buffer_dispose :: "world \<Rightarrow> world" where
  "ptls_buffer_dispose w = emit PtlsBufferDispose w"

section \<open>\<open>run_handshake\<close>\<close>

text \<open>The loops around \<open>read\<close>:
  \<^verbatim>\<open>while ((rret = read(fd, buf, cap)) == v && errno == EINTR) ;\<close>
  where \<open>v\<close> is \<open>-1\<close> in \<open>run_handshake\<close> and \<open>1\<close> in \<open>handle_connection\<close>.\<close>

function read_while :: "int \<Rightarrow> fd \<Rightarrow> byte list \<Rightarrow> nat \<Rightarrow> world \<Rightarrow> ((int \<times> byte list) \<times> world) option" where
  "read_while v f buf cap w =
     (case sys_read f buf cap w of
        None \<Rightarrow> None
      | Some ((rret, buf1), w1) \<Rightarrow>
          if rret = v \<and> errno w1 = EINTR then read_while v f buf1 cap w1
          else Some ((rret, buf1), w1))"
  by pat_completeness auto

lemma sys_read_advances:
  "sys_read f buf cap w = Some (r, w1) \<Longrightarrow>
     advances w w1 \<and> length (rd_script w1 f) < length (rd_script w f)"
  by (auto simp: sys_read_def emit_def Let_def advances_def split: list.splits rresult.splits)

termination read_while
  by (relation "measure (\<lambda>(v, f, buf, cap, w). length (rd_script w f))")
     (auto dest!: sys_read_advances)

declare read_while.simps [simp del]

lemma read_while_advances:
  "read_while v f buf cap w = Some (r, w') \<Longrightarrow> advances w w'"
proof (induction v f buf cap w rule: read_while.induct)
  case (1 v f buf cap w)
  from "1.prems" obtain rret buf1 w1 where sr: "sys_read f buf cap w = Some ((rret, buf1), w1)"
    by (subst (asm) read_while.simps) (auto split: option.splits)
  note a = sys_read_advances[OF sr, THEN conjunct1]
  show ?case
  proof (cases "rret = v \<and> errno w1 = EINTR")
    case True
    with "1.prems" sr have "read_while v f buf1 cap w1 = Some (r, w')"
      by (subst (asm) read_while.simps) simp
    from "1.IH"[OF sr refl refl True this] a show ?thesis
      by (rule advances_trans[rotated])
  next
    case False
    with "1.prems" sr have "w' = w1"
      by (subst (asm) read_while.simps) auto
    with a show ?thesis by simp
  qed
qed

text \<open>\<open>a - b\<close> on \<open>size_t\<close>, with the wrap-around written out.\<close>

definition size_sub :: "nat \<Rightarrow> nat \<Rightarrow> nat" where
  "size_sub a b = (if b \<le> a then a - b else a + nat SIZE_MOD - b)"

text \<open>\<open>memmove(buf, buf + src, n)\<close>. The bytes of the source that lie beyond the
  array are not modelled (in C, reading them is undefined).\<close>

definition memmove_front :: "byte list \<Rightarrow> nat \<Rightarrow> nat \<Rightarrow> byte list" where
  "memmove_front buf src n = take n (drop src buf) @ drop n buf"

text \<open>Lines 124 to 132 of \<open>run_handshake\<close>, after the loop.\<close>

definition hs_finish ::
  "int \<Rightarrow> ptls_buffer \<Rightarrow> byte list \<Rightarrow> nat \<Rightarrow> int \<Rightarrow> world \<Rightarrow>
     (int \<times> ptls_buffer \<times> byte list \<times> nat) \<times> world" where
  "hs_finish ret wbuf pending_input pending_input_len rret w =
     (if ret \<noteq> 0 then
        ((-1, wbuf, pending_input, pending_input_len), emit (Stderr ''ptls_handshake'' ret) w)
      else
        let pending_input1 =
              (if to_size_t rret \<noteq> pending_input_len
               then memmove_front pending_input pending_input_len
                      (size_sub (to_size_t rret) pending_input_len)
               else pending_input)
        in ((0, wbuf, pending_input1, size_sub (to_size_t rret) pending_input_len), w))"

text \<open>The loop of \<open>run_handshake\<close> (lines 111 to 122), with the variables it changes as
  arguments: \<open>*wbuf\<close>, the array at \<open>pending_input\<close>, \<open>*pending_input_len\<close> and \<open>rret\<close>.
  The result is the return value with the final \<open>*wbuf\<close>, array and \<open>*pending_input_len\<close>.\<close>

function hs_loop ::
  "fd \<Rightarrow> nat \<Rightarrow> ptls_buffer \<Rightarrow> byte list \<Rightarrow> nat \<Rightarrow> int \<Rightarrow> world \<Rightarrow>
     ((int \<times> ptls_buffer \<times> byte list \<times> nat) \<times> world) option" where
  "hs_loop f pending_input_bufsz wbuf pending_input pending_input_len rret w =
     (case ptls_handshake wbuf pending_input pending_input_len w of
        None \<Rightarrow> None
      | Some ((ret, wbuf1, len1), w1) \<Rightarrow>
          if ret = PTLS_ERROR_HANDSHAKE_IN_PROGRESS then
            (case write_all f (base wbuf1) (off wbuf1) w1 of
               None \<Rightarrow> None
             | Some (wa, w2) \<Rightarrow>
                 if wa \<noteq> 0 then Some ((-1, wbuf1, pending_input, len1), w2)
                 else
                   (case read_while (-1) f pending_input pending_input_bufsz w2 of
                      None \<Rightarrow> None
                    | Some ((rret1, pending_input1), w3) \<Rightarrow>
                        if rret1 \<le> 0
                        then Some ((-1, wbuf1\<lparr>off := 0\<rparr>, pending_input1, len1), w3)
                        else hs_loop f pending_input_bufsz (wbuf1\<lparr>off := 0\<rparr>) pending_input1
                               (to_size_t rret1) rret1 w3))
          else Some (hs_finish ret wbuf1 pending_input len1 rret w1))"
  by pat_completeness auto

lemma ptls_handshake_advances:
  "ptls_handshake b i n w = Some (r, w1) \<Longrightarrow>
     advances w w1 \<and> length (handshake_script w1) < length (handshake_script w)"
  by (auto simp: ptls_handshake_def emit_def advances_def split: list.splits)

lemma advances_handshake_script:
  "advances w w' \<Longrightarrow> length (handshake_script w') \<le> length (handshake_script w)"
  by (simp add: advances_def)

termination hs_loop
  by (relation "measure (\<lambda>(f, bufsz, wbuf, pin, plen, rret, w). length (handshake_script w))")
     (auto dest!: ptls_handshake_advances write_all_advances read_while_advances
                  advances_handshake_script)

declare hs_loop.simps [simp del]

definition run_handshake ::
  "fd \<Rightarrow> ptls_buffer \<Rightarrow> byte list \<Rightarrow> nat \<Rightarrow> world \<Rightarrow>
     ((int \<times> ptls_buffer \<times> byte list \<times> nat) \<times> world) option" where
  "run_handshake f wbuf pending_input pending_input_len w =
     hs_loop f pending_input_len wbuf pending_input 0 0 w"

section \<open>\<open>decrypt_and_print\<close>\<close>

text \<open>What one turn of a loop ends with: the function returns (\<open>return\<close>, or
  \<open>goto Exit\<close> in \<open>handle_connection\<close>), or the loop goes on with new values of its
  variables.\<close>

datatype ('r, 's) flow = Leave 'r | Again 's

text \<open>The body of the loop of \<open>decrypt_and_print\<close> (lines 144 to 155), on the variables
  \<open>decryptbuf\<close>, \<open>input\<close> and \<open>inlen\<close>.\<close>

definition dp_body ::
  "ptls_buffer \<Rightarrow> byte list \<Rightarrow> nat \<Rightarrow> world \<Rightarrow>
     ((int, ptls_buffer \<times> byte list \<times> nat) flow \<times> world) option" where
  "dp_body decryptbuf input inlen w =
     (case ptls_receive decryptbuf input inlen w of
        None \<Rightarrow> None
      | Some ((ret, decryptbuf1, consumed), w1) \<Rightarrow>
          if ret \<noteq> 0 then Some (Leave (-1), emit (Stderr ''ptls_receive'' ret) w1)
          else
            let input1 = drop consumed input;
                inlen1 = size_sub inlen consumed
            in if off decryptbuf1 \<noteq> 0 then
                 (case write_all 1 (base decryptbuf1) (off decryptbuf1) w1 of
                    None \<Rightarrow> None
                  | Some (wa, w2) \<Rightarrow>
                      if wa \<noteq> 0 then Some (Leave (-1), w2)
                      else Some (Again (decryptbuf1\<lparr>off := 0\<rparr>, input1, inlen1), w2))
               else Some (Again (decryptbuf1, input1, inlen1), w1))"

function dp_loop :: "ptls_buffer \<Rightarrow> byte list \<Rightarrow> nat \<Rightarrow> world \<Rightarrow> (int \<times> world) option" where
  "dp_loop decryptbuf input inlen w =
     (if inlen \<noteq> 0 then
        (case dp_body decryptbuf input inlen w of
           None \<Rightarrow> None
         | Some (Leave r, w1) \<Rightarrow> Some (r, w1)
         | Some (Again (decryptbuf1, input1, inlen1), w1) \<Rightarrow> dp_loop decryptbuf1 input1 inlen1 w1)
      else Some (0, w))"
  by pat_completeness auto

lemma ptls_receive_advances:
  "ptls_receive b i n w = Some (r, w1) \<Longrightarrow>
     advances w w1 \<and> length (receive_script w1) < length (receive_script w)"
  by (auto simp: ptls_receive_def emit_def advances_def split: list.splits)

lemma emit_advances: "\<not> lifecycle e \<Longrightarrow> advances w (emit e w)"
  by (simp add: emit_def advances_def)

lemma advances_receive_script:
  "advances w w' \<Longrightarrow> length (receive_script w') \<le> length (receive_script w)"
  by (simp add: advances_def)

lemma dp_body_advances:
  assumes "dp_body b i n w = Some (r, w')"
  shows "advances w w'" and "length (receive_script w') < length (receive_script w)"
proof -
  from assms obtain ret b1 c w1 where rc: "ptls_receive b i n w = Some ((ret, b1, c), w1)"
    by (auto simp: dp_body_def split: option.splits)
  note a = ptls_receive_advances[OF rc]
  have "advances w1 w'"
    using assms rc
    by (auto simp: dp_body_def Let_def emit_advances advances_refl
             split: if_splits option.splits dest: write_all_advances)
  with a show "advances w w'" and "length (receive_script w') < length (receive_script w)"
    by (auto intro: advances_trans dest: advances_receive_script)
qed

termination dp_loop
  by (relation "measure (\<lambda>(b, i, n, w). length (receive_script w))")
     (auto dest: dp_body_advances(2))

declare dp_loop.simps [simp del]

definition decrypt_and_print :: "byte list \<Rightarrow> nat \<Rightarrow> world \<Rightarrow> (int \<times> world) option" where
  "decrypt_and_print input inlen w =
     dp_loop (ptls_buffer_init (replicate 1024 0)) input inlen w"

section \<open>\<open>handle_connection\<close>\<close>

text \<open>\<open>select(nfds, &readfds, NULL, NULL, NULL)\<close> returns the new \<open>readfds\<close> with the
  return value: the descriptors of \<open>readfds\<close> that are ready, and how many they are.\<close>

definition sys_select :: "int \<Rightarrow> fd list \<Rightarrow> world \<Rightarrow> ((int \<times> fd list) \<times> world) option" where
  "sys_select nfds readfds w =
     (case select_script w of
        [] \<Rightarrow> None
      | Ready fds # rest \<Rightarrow>
          let readfds1 = filter (\<lambda>x. x \<in> set fds \<and> x < nfds) (remdups readfds);
              w1 = w\<lparr>select_script := rest\<rparr>
          in Some ((int (length readfds1), readfds1),
                   emit (SysSelect nfds (int (length readfds1)) readfds1) w1)
      | SFail e # rest \<Rightarrow>
          let w1 = w\<lparr>select_script := rest, errno := e\<rparr>
          in Some ((-1, readfds), emit (SysSelect nfds (-1) readfds) w1))"

text \<open>The branch of the loop for standard input (lines 197 to 206), on \<open>wbuf\<close> and
  \<open>rbuf\<close>; \<open>Leave\<close> is \<open>goto Exit\<close>.\<close>

definition stdin_branch ::
  "fd \<Rightarrow> ptls_buffer \<Rightarrow> byte list \<Rightarrow> world \<Rightarrow>
     ((unit, ptls_buffer \<times> byte list) flow \<times> world) option" where
  "stdin_branch f wbuf rbuf w =
     (case read_while 1 0 rbuf 1024 w of
        None \<Rightarrow> None
      | Some ((rret, rbuf1), w1) \<Rightarrow>
          (case ptls_send wbuf rbuf1 (to_size_t rret) w1 of
             None \<Rightarrow> None
           | Some ((ret, wbuf1), w2) \<Rightarrow>
               if ret \<noteq> 0 then Some (Leave (), emit (Stderr ''ptls_send'' ret) w2)
               else
                 (case write_all f (base wbuf1) (off wbuf1) w2 of
                    None \<Rightarrow> None
                  | Some (wa, w3) \<Rightarrow>
                      if wa \<noteq> 0 then Some (Leave (), w3)
                      else Some (Again (wbuf1\<lparr>off := 0\<rparr>, rbuf1), w3))))"

text \<open>The branch for the socket (lines 210 to 216).\<close>

definition socket_branch ::
  "fd \<Rightarrow> ptls_buffer \<Rightarrow> byte list \<Rightarrow> world \<Rightarrow>
     ((unit, ptls_buffer \<times> byte list) flow \<times> world) option" where
  "socket_branch f wbuf rbuf w =
     (case read_while 1 f rbuf 1024 w of
        None \<Rightarrow> None
      | Some ((rret, rbuf1), w1) \<Rightarrow>
          if rret \<le> 0 then Some (Leave (), w1)
          else
            (case decrypt_and_print rbuf1 (to_size_t rret) w1 of
               None \<Rightarrow> None
             | Some (r, w2) \<Rightarrow>
                 if r \<noteq> 0 then Some (Leave (), w2)
                 else Some (Again (wbuf, rbuf1), w2)))"

text \<open>One turn of \<open>while (1)\<close> (lines 189 to 217); \<open>FD_ISSET(x, &readfds)\<close> is
  \<open>x \<in> set readfds\<close>. \<open>continue\<close> is \<open>Again\<close> with the variables unchanged.\<close>

definition stream_body ::
  "fd \<Rightarrow> ptls_buffer \<Rightarrow> byte list \<Rightarrow> world \<Rightarrow>
     ((unit, ptls_buffer \<times> byte list) flow \<times> world) option" where
  "stream_body f wbuf rbuf w =
     (case sys_select (f + 1) [0, f] w of
        None \<Rightarrow> None
      | Some ((sret, readfds), w1) \<Rightarrow>
          if sret \<le> 0 then Some (Again (wbuf, rbuf), w1)
          else
            (case (if 0 \<in> set readfds then stdin_branch f wbuf rbuf w1
                   else Some (Again (wbuf, rbuf), w1)) of
               None \<Rightarrow> None
             | Some (Leave u, w2) \<Rightarrow> Some (Leave u, w2)
             | Some (Again (wbuf1, rbuf1), w2) \<Rightarrow>
                 if f \<in> set readfds then socket_branch f wbuf1 rbuf1 w2
                 else Some (Again (wbuf1, rbuf1), w2)))"

text \<open>The loop; its value is the world at the label \<open>Exit\<close>.\<close>

function stream_loop :: "fd \<Rightarrow> ptls_buffer \<Rightarrow> byte list \<Rightarrow> world \<Rightarrow> world option" where
  "stream_loop f wbuf rbuf w =
     (case stream_body f wbuf rbuf w of
        None \<Rightarrow> None
      | Some (Leave u, w1) \<Rightarrow> Some w1
      | Some (Again (wbuf1, rbuf1), w1) \<Rightarrow> stream_loop f wbuf1 rbuf1 w1)"
  by pat_completeness auto


lemma dp_loop_advances:
  "dp_loop b i n w = Some (r, w') \<Longrightarrow> advances w w'"
proof (induction b i n w rule: dp_loop.induct)
  case (1 b i n w)
  show ?case
  proof (cases "n = 0")
    case True
    with "1.prems" show ?thesis
      by (subst (asm) dp_loop.simps) (simp add: advances_refl)
  next
    case False
    with "1.prems" obtain fl w1 where body: "dp_body b i n w = Some (fl, w1)"
      by (subst (asm) dp_loop.simps) (auto split: option.splits)
    note a = dp_body_advances(1)[OF body]
    show ?thesis
    proof (cases fl)
      case (Leave x)
      with "1.prems" False body have "w' = w1"
        by (subst (asm) dp_loop.simps) simp
      with a show ?thesis by simp
    next
      case (Again st)
      obtain b1 i1 n1 where st: "st = (b1, i1, n1)" by (cases st)
      with "1.prems" False body Again have "dp_loop b1 i1 n1 w1 = Some (r, w')"
        by (subst (asm) dp_loop.simps) simp
      from "1.IH"[OF False body refl Again[unfolded st] refl refl this] a show ?thesis
        by (rule advances_trans[rotated])
    qed
  qed
qed

lemma decrypt_and_print_advances:
  "decrypt_and_print i n w = Some (r, w') \<Longrightarrow> advances w w'"
  unfolding decrypt_and_print_def by (rule dp_loop_advances)

lemma ptls_send_advances:
  "ptls_send b i n w = Some (r, w1) \<Longrightarrow> advances w w1"
  by (auto simp: ptls_send_def emit_def advances_def split: list.splits)

lemma sys_select_advances:
  "sys_select n fds w = Some (r, w1) \<Longrightarrow>
     advances w w1 \<and> length (select_script w1) < length (select_script w)"
  by (auto simp: sys_select_def emit_def Let_def advances_def split: list.splits sresult.splits)

lemma stdin_branch_advances:
  assumes "stdin_branch f wbuf rbuf w = Some (r, w')"
  shows "advances w w'"
proof -
  from assms obtain rr w1 where rd: "read_while 1 0 rbuf 1024 w = Some (rr, w1)"
    by (auto simp: stdin_branch_def split: option.splits)
  obtain rret rbuf1 where rr: "rr = (rret, rbuf1)" by (cases rr)
  from assms rd rr obtain sr w2 where sn: "ptls_send wbuf rbuf1 (to_size_t rret) w1 = Some (sr, w2)"
    by (auto simp: stdin_branch_def split: option.splits)
  have "advances w2 w'"
    using assms rd rr sn
    by (auto simp: stdin_branch_def emit_advances advances_refl
             split: if_splits option.splits prod.splits dest: write_all_advances)
  with read_while_advances[OF rd] ptls_send_advances[OF sn] show ?thesis
    by (blast intro: advances_trans)
qed

lemma socket_branch_advances:
  assumes "socket_branch f wbuf rbuf w = Some (r, w')"
  shows "advances w w'"
proof -
  from assms obtain rr w1 where rd: "read_while 1 f rbuf 1024 w = Some (rr, w1)"
    by (auto simp: socket_branch_def split: option.splits)
  have "advances w1 w'"
    using assms rd
    by (auto simp: socket_branch_def advances_refl
             split: if_splits option.splits prod.splits dest: decrypt_and_print_advances)
  with read_while_advances[OF rd] show ?thesis
    by (blast intro: advances_trans)
qed

lemma advances_select_script:
  "advances w w' \<Longrightarrow> length (select_script w') \<le> length (select_script w)"
  by (simp add: advances_def)

lemma stream_body_advances:
  assumes "stream_body f wbuf rbuf w = Some (r, w')"
  shows "advances w w'" and "length (select_script w') < length (select_script w)"
proof -
  from assms obtain sr w1 where sl: "sys_select (f + 1) [0, f] w = Some (sr, w1)"
    by (auto simp: stream_body_def split: option.splits)
  obtain sret readfds where sr: "sr = (sret, readfds)" by (cases sr)
  have "advances w1 w'"
  proof (cases "sret \<le> 0")
    case True
    with assms sl sr show ?thesis
      by (simp add: stream_body_def advances_refl)
  next
    case False
    define first where
      "first = (if 0 \<in> set readfds then stdin_branch f wbuf rbuf w1
                else Some (Again (wbuf, rbuf), w1))"
    from assms sl sr False obtain fl w2 where fst: "first = Some (fl, w2)"
      by (auto simp: stream_body_def first_def split: option.splits if_splits)
    have a12: "advances w1 w2"
      using fst by (auto simp: first_def advances_refl split: if_splits dest: stdin_branch_advances)
    have "advances w2 w'"
      using assms sl sr False fst
      by (auto simp: stream_body_def first_def[symmetric] advances_refl
               split: flow.splits prod.splits if_splits dest: socket_branch_advances)
    with a12 show ?thesis by (rule advances_trans)
  qed
  with sys_select_advances[OF sl]
  show "advances w w'" and "length (select_script w') < length (select_script w)"
    by (auto intro: advances_trans dest: advances_select_script)
qed

termination stream_loop
  by (relation "measure (\<lambda>(f, wbuf, rbuf, w). length (select_script w))")
     (auto dest: stream_body_advances(2))

declare stream_loop.simps [simp del]

text \<open>\<open>handle_connection\<close> up to the label \<open>Exit\<close> (lines 172 to 218): its value is the
  world in which \<open>Exit\<close> is reached.\<close>

definition hc_body :: "fd \<Rightarrow> ptls_buffer \<Rightarrow> byte list \<Rightarrow> world \<Rightarrow> world option" where
  "hc_body f wbuf rbuf w =
     (case run_handshake f wbuf rbuf 1024 w of
        None \<Rightarrow> None
      | Some ((hret, wbuf1, rbuf1, roff), w1) \<Rightarrow>
          if hret \<noteq> 0 then Some w1
          else
            (case write_all f (base wbuf1) (off wbuf1) w1 of
               None \<Rightarrow> None
             | Some (wa, w2) \<Rightarrow>
                 if wa \<noteq> 0 then Some w2
                 else
                   (case decrypt_and_print rbuf1 roff w2 of
                      None \<Rightarrow> None
                    | Some (dret, w3) \<Rightarrow>
                        if dret \<noteq> 0 then Some w3
                        else stream_loop f (wbuf1\<lparr>off := 0\<rparr>) rbuf1 w3)))"

text \<open>The arrays \<open>rbuf\<close> and \<open>wbuf_small\<close> are not initialised in C; here they hold
  zeros. The \<open>ptls_context_t *\<close> argument is left out.\<close>

definition handle_connection :: "fd \<Rightarrow> string option \<Rightarrow> world \<Rightarrow> (int \<times> world) option" where
  "handle_connection f server_name w =
     (case hc_body f (ptls_buffer_init (replicate 1024 0)) (replicate 1024 0)
             (ptls_new server_name w) of
        None \<Rightarrow> None
      | Some w1 \<Rightarrow> Some (0, ptls_free (ptls_buffer_dispose w1)))"

section \<open>\<open>run_client\<close>\<close>

definition sys_socket :: "world \<Rightarrow> (int \<times> world) option" where
  "sys_socket w =
     (case socket_script w of
        [] \<Rightarrow> None
      | r # rest \<Rightarrow> Some (r, emit (SysSocket r) (w\<lparr>socket_script := rest\<rparr>)))"

definition sys_connect :: "fd \<Rightarrow> world \<Rightarrow> (int \<times> world) option" where
  "sys_connect f w =
     (case connect_script w of
        [] \<Rightarrow> None
      | r # rest \<Rightarrow> Some (r, emit (SysConnect f r) (w\<lparr>connect_script := rest\<rparr>)))"

definition perror :: "string \<Rightarrow> world \<Rightarrow> world" where
  "perror s w = emit (Perror s) w"

definition run_client :: "world \<Rightarrow> (int \<times> world) option" where
  "run_client w =
     (case sys_socket w of
        None \<Rightarrow> None
      | Some (f, w1) \<Rightarrow>
          if f = 1 then Some (1, perror ''socket(2) failed'' w1)
          else
            (case sys_connect f w1 of
               None \<Rightarrow> None
             | Some (cret, w2) \<Rightarrow>
                 if cret \<noteq> 0 then Some (1, perror ''connect(2) failed'' w2)
                 else handle_connection f (Some ''example.com'') w2))"

section \<open>Simulated worlds\<close>

text \<open>The world in which every script is empty; the worlds of the examples below are
  updates of it.\<close>

definition idle :: world where
  "idle = \<lparr>errno = 0, wr_script = (\<lambda>_. []), rd_script = (\<lambda>_. []), select_script = [],
            socket_script = [], connect_script = [], handshake_script = [],
            receive_script = [], send_script = [], trace = []\<rparr>"

definition reply :: "int \<Rightarrow> nat \<Rightarrow> byte list \<Rightarrow> engine_reply" where
  "reply r c out = \<lparr>reply_ret = r, reply_consumed = c, reply_output = out\<rparr>"

text \<open>What a run is seen to do: its return value and the events it added.\<close>

definition outcome :: "world \<Rightarrow> (int \<times> world) option \<Rightarrow> (int \<times> event list) option" where
  "outcome w res = map_option (\<lambda>(r, w'). (r, new_events w w')) res"

lemma outcome_SomeD:
  "outcome w res = Some (r, evs) \<Longrightarrow> \<exists>w'. res = Some (r, w') \<and> new_events w w' = evs"
  by (auto simp: outcome_def)

section \<open>Exit status\<close>

text \<open>C10: \<open>handle_connection\<close> returns 0 on every path on which it returns, and so
  does \<open>run_client\<close> once \<open>socket\<close> has returned something other than 1 and \<open>connect\<close> has
  returned 0, whatever happens to the handshake and to the connection.\<close>

theorem handle_connection_returns_zero:
  "(handle_connection f name w = Some (r, w') \<longrightarrow> r = 0) \<and>
   (sys_socket w = Some (s, w1) \<and> s \<noteq> 1 \<and> sys_connect s w1 = Some (0, w2) \<and>
      run_client w = Some (r, w') \<longrightarrow> r = 0)"
  by (auto simp: handle_connection_def run_client_def split: option.splits)

definition failing_handshake :: world where
  "failing_handshake =
     idle\<lparr>socket_script := [3], connect_script := [0], handshake_script := [reply 40 0 []]\<rparr>"

theorem handle_connection_returns_zero_witness:
  "\<exists>w'. run_client failing_handshake = Some (0, w') \<and>
     trace w' = [SysSocket 3, SysConnect 3 0, PtlsNew (Some ''example.com''),
                 PtlsHandshake [] 40 0, Stderr ''ptls_handshake'' 40,
                 PtlsBufferDispose, PtlsFree]"
proof -
  have "map_option (trace \<circ> snd) (run_client failing_handshake) =
     Some [SysSocket 3, SysConnect 3 0, PtlsNew (Some ''example.com''),
           PtlsHandshake [] 40 0, Stderr ''ptls_handshake'' 40,
           PtlsBufferDispose, PtlsFree]"
    by code_simp
  then obtain r w' where run: "run_client failing_handshake = Some (r, w')"
    and tr: "trace w' = [SysSocket 3, SysConnect 3 0, PtlsNew (Some ''example.com''),
           PtlsHandshake [] 40 0, Stderr ''ptls_handshake'' 40,
           PtlsBufferDispose, PtlsFree]"
    by auto
  obtain w1 w2 where "sys_socket failing_handshake = Some (3, w1)"
    and "sys_connect 3 w1 = Some (0, w2)"
    by (simp add: failing_handshake_def idle_def sys_socket_def sys_connect_def emit_def)
  with run have "r = 0"
    using handle_connection_returns_zero[of 3 "Some ''example.com''" failing_handshake r w' 3 w1 w2]
    by simp
  with run tr show ?thesis by simp
qed


section \<open>The check of \<open>socket\<close> in \<open>run_client\<close>\<close>

text \<open>C9: in \<open>run_client\<close> the result of \<open>socket\<close> is compared with 1. When \<open>socket\<close>
  returns \<open>-1\<close> no failure is reported and the client goes on to \<open>connect\<close> with \<open>-1\<close> as
  the descriptor; when it returns the descriptor 1 the client reports
  \<open>socket(2) failed\<close> and returns 1.\<close>

theorem run_client_socket_check:
  "(sys_socket w = Some (-1, w1) \<longrightarrow>
      run_client w =
        (case sys_connect (-1) w1 of
           None \<Rightarrow> None
         | Some (cret, w2) \<Rightarrow>
             if cret \<noteq> 0 then Some (1, perror ''connect(2) failed'' w2)
             else handle_connection (-1) (Some ''example.com'') w2)) \<and>
   (sys_socket w = Some (1, w1) \<longrightarrow> run_client w = Some (1, perror ''socket(2) failed'' w1))"
  by (simp add: run_client_def)

definition socket_fails :: world where
  "socket_fails = idle\<lparr>socket_script := [-1], connect_script := [-1]\<rparr>"

definition socket_gives_one :: world where
  "socket_gives_one = idle\<lparr>socket_script := [1], connect_script := [0]\<rparr>"

theorem run_client_socket_check_witness:
  "(\<exists>w'. run_client socket_fails = Some (1, w') \<and>
       trace w' = [SysSocket (-1), SysConnect (-1) (-1), Perror ''connect(2) failed'']) \<and>
   (\<exists>w'. run_client socket_gives_one = Some (1, w') \<and>
       trace w' = [SysSocket 1, Perror ''socket(2) failed''])"
proof -
  obtain w1 where s1: "sys_socket socket_fails = Some (-1, w1)"
    and w1: "w1 = emit (SysSocket (-1)) (socket_fails\<lparr>socket_script := []\<rparr>)"
    by (simp add: socket_fails_def idle_def sys_socket_def)
  obtain v1 where s2: "sys_socket socket_gives_one = Some (1, v1)"
    and v1: "v1 = emit (SysSocket 1) (socket_gives_one\<lparr>socket_script := []\<rparr>)"
    by (simp add: socket_gives_one_def idle_def sys_socket_def)
  from s1 s2 run_client_socket_check[of socket_fails w1] run_client_socket_check[of socket_gives_one v1]
  have "run_client socket_fails =
        (case sys_connect (-1) w1 of
           None \<Rightarrow> None
         | Some (cret, w2) \<Rightarrow>
             if cret \<noteq> 0 then Some (1, perror ''connect(2) failed'' w2)
             else handle_connection (-1) (Some ''example.com'') w2)"
    and "run_client socket_gives_one = Some (1, perror ''socket(2) failed'' v1)"
    by simp_all
  then show ?thesis
    by (simp add: w1 v1 socket_fails_def socket_gives_one_def idle_def sys_connect_def
                  perror_def emit_def)
qed

section \<open>\<open>write_all\<close> transfers everything or fails\<close>

text \<open>The bytes a trace transfers to a descriptor, in order.\<close>

fun written :: "fd \<Rightarrow> event list \<Rightarrow> byte list" where
  "written f [] = []"
| "written f (SysWrite g bs r e # evs) = (if g = f then bs @ written f evs else written f evs)"
| "written f (ev # evs) = written f evs"

text \<open>A \<open>write\<close> that \<open>write_all\<close> gives up on: its result is not positive, and it is not
  \<open>-1\<close> with \<open>errno\<close> at \<open>EINTR\<close>.\<close>

fun fatal_write :: "event \<Rightarrow> bool" where
  "fatal_write (SysWrite g bs r e) = (r \<le> 0 \<and> \<not> (r = -1 \<and> e = EINTR))"
| "fatal_write ev = False"

fun write_on :: "fd \<Rightarrow> event \<Rightarrow> bool" where
  "write_on f (SysWrite g bs r e) = (g = f)"
| "write_on f ev = False"

text \<open>The answers of a script that are not interrupts.\<close>

definition answers :: "wresult list \<Rightarrow> nat" where
  "answers script = length (filter (\<lambda>a. a \<noteq> WFail EINTR) script)"

lemma written_append: "written f (xs @ ys) = written f xs @ written f ys"
  by (induction f xs rule: written.induct) auto

lemma sys_write_events:
  "sys_write f data len w = Some (r, w1) \<Longrightarrow>
     new_events w w1 = [SysWrite f (take (nat r) (take len data)) r (errno w1)] \<and>
     -1 \<le> r \<and> r \<le> int len"
  by (auto simp: sys_write_def emit_def Let_def new_events_def split: list.splits wresult.splits)

lemma write_retry_events:
  "write_retry f data len w = Some (r, w') \<Longrightarrow>
     (\<exists>n. new_events w w' =
        replicate n (SysWrite f [] (-1) EINTR) @
        [SysWrite f (take (nat r) (take len data)) r (errno w')]) \<and>
     \<not> (r = -1 \<and> errno w' = EINTR) \<and> -1 \<le> r \<and> r \<le> int len"
proof (induction f data len w rule: write_retry.induct)
  case (1 f data len w)
  from "1.prems" obtain wret w1 where sw: "sys_write f data len w = Some (wret, w1)"
    by (subst (asm) write_retry.simps) (auto split: option.splits)
  note ev = sys_write_events[OF sw] and a = sys_write_advances[OF sw]
  show ?case
  proof (cases "wret = -1 \<and> errno w1 = EINTR")
    case True
    with "1.prems" sw have rec: "write_retry f data len w1 = Some (r, w')"
      by (subst (asm) write_retry.simps) simp
    from "1.IH"[OF sw refl True rec] obtain n where
      n: "new_events w1 w' =
            replicate n (SysWrite f [] (-1) EINTR) @
            [SysWrite f (take (nat r) (take len data)) r (errno w')]"
      and rest: "\<not> (r = -1 \<and> errno w' = EINTR)" "-1 \<le> r" "r \<le> int len"
      by blast
    have "new_events w w' = new_events w w1 @ new_events w1 w'"
      using a write_retry_advances[OF rec] by (simp add: new_events_trans)
    with ev True n have "new_events w w' =
        replicate (Suc n) (SysWrite f [] (-1) EINTR) @
        [SysWrite f (take (nat r) (take len data)) r (errno w')]"
      by simp
    with rest show ?thesis by blast
  next
    case False
    with "1.prems" sw have eq: "w' = w1" "r = wret"
      by (subst (asm) write_retry.simps; auto)+
    with ev False have "new_events w w' =
        replicate 0 (SysWrite f [] (-1) EINTR) @
        [SysWrite f (take (nat r) (take len data)) r (errno w')]"
      by simp
    with ev False eq show ?thesis by blast
  qed
qed


text \<open>What C2 asks of a run of \<open>write_all\<close> that returned \<open>r\<close> after the events \<open>evs\<close>:
  the events are writes to the descriptor; either \<open>r\<close> is 0, the bytes transferred are the
  \<open>len\<close> bytes at \<open>data\<close> and no write was given up on, or \<open>r\<close> is \<open>-1\<close>, the last write
  is the first that was given up on, and the bytes transferred are a proper prefix of the
  data.\<close>

definition write_all_post :: "fd \<Rightarrow> byte list \<Rightarrow> nat \<Rightarrow> int \<Rightarrow> event list \<Rightarrow> bool" where
  "write_all_post f data len r evs \<longleftrightarrow>
     (\<forall>e \<in> set evs. write_on f e) \<and>
     ((r = 0 \<and> written f evs = take len data \<and> (\<forall>e \<in> set evs. \<not> fatal_write e)) \<or>
      (r = -1 \<and> evs \<noteq> [] \<and> fatal_write (last evs) \<and>
       (\<forall>e \<in> set (butlast evs). \<not> fatal_write e) \<and>
       (\<exists>k<len. written f evs = take k data)))"

lemma written_interrupts [simp]:
  "written f (replicate n (SysWrite f [] (-1) EINTR)) = []"
  by (induction n) auto

lemma write_all_post_fail:
  assumes "r \<le> 0" "\<not> (r = -1 \<and> e = EINTR)" "0 < len"
  shows "write_all_post f data len (-1)
           (replicate n (SysWrite f [] (-1) EINTR) @ [SysWrite f (take (nat r) (take len data)) r e])"
proof -
  from assms have "take (nat r) (take len data) = take 0 data" by simp
  with assms show ?thesis
    unfolding write_all_post_def
    by (auto simp: written_append butlast_append intro!: exI[of _ 0])
qed

lemma write_all_post_append:
  assumes wpre: "written f pre = take k data"
    and nf: "\<forall>x \<in> set pre. \<not> fatal_write x" and on: "\<forall>x \<in> set pre. write_on f x"
    and k: "0 < k" "k \<le> len"
    and rest: "write_all_post f (drop k data) (len - k) r' evs"
  shows "write_all_post f data len r' (pre @ evs)"
proof -
  from rest have on': "\<forall>x \<in> set evs. write_on f x"
    by (simp add: write_all_post_def)
  with on have onall: "\<forall>x \<in> set (pre @ evs). write_on f x"
    by auto
  from rest consider
      (ok) "r' = 0" "written f evs = take (len - k) (drop k data)" "\<forall>x \<in> set evs. \<not> fatal_write x"
    | (bad) k' where "r' = -1" "evs \<noteq> []" "fatal_write (last evs)"
        "\<forall>x \<in> set (butlast evs). \<not> fatal_write x" "k' < len - k"
        "written f evs = take k' (drop k data)"
    unfolding write_all_post_def by blast
  then show ?thesis
  proof cases
    case ok
    have "take len data = take (k + (len - k)) data"
      using k by simp
    also have "\<dots> = take k data @ take (len - k) (drop k data)"
      by (rule take_add)
    finally have "written f (pre @ evs) = take len data"
      by (simp only: written_append wpre ok(2))
    moreover have "\<forall>x \<in> set (pre @ evs). \<not> fatal_write x"
      using nf ok(3) by auto
    ultimately show ?thesis
      using ok(1) onall unfolding write_all_post_def by blast
  next
    case bad
    have "written f (pre @ evs) = take (k + k') data"
      by (simp only: written_append wpre bad(6) take_add)
    moreover have "k + k' < len" using bad(5) k by simp
    ultimately have "\<exists>j<len. written f (pre @ evs) = take j data"
      by blast
    moreover have "butlast (pre @ evs) = pre @ butlast evs"
      using bad(2) by (simp add: butlast_append)
    then have "\<forall>x \<in> set (butlast (pre @ evs)). \<not> fatal_write x"
      using nf bad(4) by auto
    moreover have "fatal_write (last (pre @ evs))"
      using bad(2,3) by simp
    moreover have "pre @ evs \<noteq> []" using bad(2) by simp
    ultimately show ?thesis
      using bad(1) onall unfolding write_all_post_def by blast
  qed
qed

lemma write_all_post_step:
  assumes r: "0 < r" "r \<le> int len" and len: "len \<le> length data"
    and rest: "write_all_post f (drop (nat r) data) (len - nat r) r' evs"
  shows "write_all_post f data len r'
           ((replicate n (SysWrite f [] (-1) EINTR) @ [SysWrite f (take (nat r) (take len data)) r e]) @ evs)"
proof (rule write_all_post_append[where k = "nat r"])
  from r have k: "0 < nat r" "nat r \<le> len" by auto
  then show "0 < nat r" "nat r \<le> len" .
  show "written f (replicate n (SysWrite f [] (-1) EINTR) @
          [SysWrite f (take (nat r) (take len data)) r e]) = take (nat r) data"
    using k by (simp add: written_append min_def)
  show "\<forall>x \<in> set (replicate n (SysWrite f [] (-1) EINTR) @
          [SysWrite f (take (nat r) (take len data)) r e]). \<not> fatal_write x"
    using r by auto
  show "\<forall>x \<in> set (replicate n (SysWrite f [] (-1) EINTR) @
          [SysWrite f (take (nat r) (take len data)) r e]). write_on f x"
    by auto
  show "write_all_post f (drop (nat r) data) (len - nat r) r' evs" by (rule rest)
qed

lemma write_all_events:
  "write_all f data len w = Some (r, w') \<Longrightarrow> len \<le> length data \<Longrightarrow>
     write_all_post f data len r (new_events w w')"
proof (induction f data len w rule: write_all.induct)
  case (1 f data len w)
  show ?case
  proof (cases "len = 0")
    case True
    with "1.prems" have "r = 0" "w' = w"
      by (subst (asm) write_all.simps; simp)+
    with True show ?thesis
      by (simp add: write_all_post_def new_events_def)
  next
    case False
    with "1.prems" obtain wret w1 where wr: "write_retry f data len w = Some (wret, w1)"
      by (subst (asm) write_all.simps) (auto split: option.splits)
    from write_retry_events[OF wr] obtain n where
      n: "new_events w w1 =
            replicate n (SysWrite f [] (-1) EINTR) @
            [SysWrite f (take (nat wret) (take len data)) wret (errno w1)]"
      and ne: "\<not> (wret = -1 \<and> errno w1 = EINTR)" and bounds: "-1 \<le> wret" "wret \<le> int len"
      by blast
    show ?thesis
    proof (cases "wret \<le> 0")
      case True
      with "1.prems" False wr have "r = -1" "w' = w1"
        by (subst (asm) write_all.simps; simp)+
      with write_all_post_fail[OF True ne, of len f data n] False n show ?thesis
        by simp
    next
      case pos: False
      with "1.prems" False wr
      have rec: "write_all f (drop (nat wret) data) (len - nat wret) w1 = Some (r, w')"
        by (subst (asm) write_all.simps) simp
      have "len - nat wret \<le> length (drop (nat wret) data)"
        using "1.prems"(2) by simp
      from "1.IH"[OF False wr refl pos rec this]
      have post: "write_all_post f (drop (nat wret) data) (len - nat wret) r (new_events w1 w')" .
      have "new_events w w' = new_events w w1 @ new_events w1 w'"
        using write_retry_advances[OF wr] write_all_advances[OF rec]
        by (simp add: new_events_trans)
      with n write_all_post_step[OF _ bounds(2) "1.prems"(2) post, of n "errno w1"] pos
      show ?thesis by simp
    qed
  qed
qed


lemma write_retry_total:
  "wr_script w f = script \<Longrightarrow> 0 < answers script \<Longrightarrow>
     \<exists>r w'. write_retry f data len w = Some (r, w') \<and>
       Suc (answers (wr_script w' f)) = answers script"
proof (induction script arbitrary: w)
  case Nil
  then show ?case by (simp add: answers_def)
next
  case (Cons a rest)
  show ?case
  proof (cases "a = WFail EINTR")
    case True
    define w1 where "w1 = emit (SysWrite f [] (-1) EINTR)
                            (w\<lparr>wr_script := (wr_script w)(f := rest), errno := EINTR\<rparr>)"
    have sw: "sys_write f data len w = Some (-1, w1)"
      using Cons.prems(1) True by (simp add: sys_write_def w1_def)
    have w1: "wr_script w1 f = rest" "errno w1 = EINTR"
      by (simp_all add: w1_def emit_def)
    from Cons.prems(2) True have "0 < answers rest"
      by (simp add: answers_def)
    from Cons.IH[OF w1(1) this] obtain r w' where
      "write_retry f data len w1 = Some (r, w')" "Suc (answers (wr_script w' f)) = answers rest"
      by blast
    moreover have "write_retry f data len w = write_retry f data len w1"
      using sw w1(2) by (subst write_retry.simps) simp
    ultimately show ?thesis
      using True by (auto simp: answers_def)
  next
    case False
    then obtain r w1 where sw: "sys_write f data len w = Some (r, w1)"
      and stop: "\<not> (r = -1 \<and> errno w1 = EINTR)" and w1: "wr_script w1 f = rest"
      using Cons.prems(1)
      by (cases a) (auto simp: sys_write_def emit_def Let_def)
    then have "write_retry f data len w = Some (r, w1)"
      by (subst write_retry.simps) auto
    with w1 False show ?thesis
      by (auto simp: answers_def)
  qed
qed

lemma write_all_total:
  "len \<le> answers (wr_script w f) \<Longrightarrow>
     \<exists>r w'. write_all f data len w = Some (r, w') \<and>
       answers (wr_script w f) - len \<le> answers (wr_script w' f)"
proof (induction f data len w rule: write_all.induct)
  case (1 f data len w)
  show ?case
  proof (cases "len = 0")
    case True
    then show ?thesis by (subst write_all.simps) simp
  next
    case False
    with "1.prems" have "0 < answers (wr_script w f)" by simp
    from write_retry_total[OF refl this] obtain wret w1 where
      wr: "write_retry f data len w = Some (wret, w1)"
      and an: "Suc (answers (wr_script w1 f)) = answers (wr_script w f)"
      by blast
    show ?thesis
    proof (cases "wret \<le> 0")
      case True
      with False wr have "write_all f data len w = Some (-1, w1)"
        by (subst write_all.simps) simp
      with an False show ?thesis by auto
    next
      case pos: False
      then have k: "0 < nat wret" by simp
      with "1.prems" an have "len - nat wret \<le> answers (wr_script w1 f)" by simp
      from "1.IH"[OF False wr refl pos this] obtain r w' where
        rec: "write_all f (drop (nat wret) data) (len - nat wret) w1 = Some (r, w')"
        and an': "answers (wr_script w1 f) - (len - nat wret) \<le> answers (wr_script w' f)"
        by blast
      from False wr pos rec have "write_all f data len w = Some (r, w')"
        by (subst write_all.simps) simp
      moreover from an an' k False have "answers (wr_script w f) - len \<le> answers (wr_script w' f)"
        by arith
      ultimately show ?thesis by blast
    qed
  qed
qed

text \<open>C2: a run of \<open>write_all\<close> on the \<open>len\<close> bytes at \<open>data\<close>, whatever the descriptor
  answers, transfers exactly those bytes in order and returns 0, or returns \<open>-1\<close> at the
  first answer that is not positive and not an interrupt, with a proper prefix of the
  bytes transferred. It returns as soon as the script holds \<open>len\<close> answers that are not
  interrupts.\<close>

theorem write_all_complete:
  "(write_all f data len w = Some (r, w') \<and> len \<le> length data \<longrightarrow>
      write_all_post f data len r (new_events w w')) \<and>
   (len \<le> answers (wr_script w f) \<longrightarrow> write_all f data len w \<noteq> None)"
  using write_all_events[of f data len w r w'] write_all_total[of len w f data]
  by auto

definition short_writes :: world where
  "short_writes = idle\<lparr>wr_script := (\<lambda>_. [])(3 := [Accept 2, WFail EINTR, Accept 1, Accept 9])\<rparr>"

definition broken_pipe :: world where
  "broken_pipe = idle\<lparr>wr_script := (\<lambda>_. [])(3 := [Accept 2, WFail 32, Accept 9])\<rparr>"

theorem write_all_complete_witness:
  "(\<exists>w'. write_all 3 [1, 2, 3, 4, 5] 5 short_writes = Some (0, w') \<and>
      new_events short_writes w' =
        [SysWrite 3 [1, 2] 2 0, SysWrite 3 [] (-1) EINTR, SysWrite 3 [3] 1 EINTR,
         SysWrite 3 [4, 5] 2 EINTR] \<and>
      written 3 (new_events short_writes w') = [1, 2, 3, 4, 5]) \<and>
   (\<exists>w'. write_all 3 [1, 2, 3, 4, 5] 5 broken_pipe = Some (-1, w') \<and>
      new_events broken_pipe w' = [SysWrite 3 [1, 2] 2 0, SysWrite 3 [] (-1) 32] \<and>
      fatal_write (last (new_events broken_pipe w')))"
proof -
  have "outcome short_writes (write_all 3 [1, 2, 3, 4, 5] 5 short_writes) =
          Some (0, [SysWrite 3 [1, 2] 2 0, SysWrite 3 [] (-1) EINTR, SysWrite 3 [3] 1 EINTR,
                    SysWrite 3 [4, 5] 2 EINTR])"
    by code_simp
  then obtain w1 where r1: "write_all 3 [1, 2, 3, 4, 5] 5 short_writes = Some (0, w1)"
    and e1: "new_events short_writes w1 =
               [SysWrite 3 [1, 2] 2 0, SysWrite 3 [] (-1) EINTR, SysWrite 3 [3] 1 EINTR,
                SysWrite 3 [4, 5] 2 EINTR]"
    by (blast dest: outcome_SomeD)
  have "outcome broken_pipe (write_all 3 [1, 2, 3, 4, 5] 5 broken_pipe) =
          Some (-1, [SysWrite 3 [1, 2] 2 0, SysWrite 3 [] (-1) 32])"
    by code_simp
  then obtain w2 where r2: "write_all 3 [1, 2, 3, 4, 5] 5 broken_pipe = Some (-1, w2)"
    and e2: "new_events broken_pipe w2 = [SysWrite 3 [1, 2] 2 0, SysWrite 3 [] (-1) 32]"
    by (blast dest: outcome_SomeD)
  from r1 write_all_complete[of 3 "[1, 2, 3, 4, 5]" 5 short_writes 0 w1]
  have "write_all_post 3 [1, 2, 3, 4, 5] 5 0 (new_events short_writes w1)"
    by simp
  then have p1: "written 3 (new_events short_writes w1) = [1, 2, 3, 4, 5]"
    by (simp add: write_all_post_def)
  from r2 write_all_complete[of 3 "[1, 2, 3, 4, 5]" 5 broken_pipe "-1" w2]
  have "write_all_post 3 [1, 2, 3, 4, 5] 5 (-1) (new_events broken_pipe w2)"
    by simp
  then have p2: "fatal_write (last (new_events broken_pipe w2))"
    by (simp add: write_all_post_def)
  from r1 e1 p1 r2 e2 p2 show ?thesis by blast
qed

section \<open>Interrupted reads in the streaming loop\<close>

text \<open>A world in which the next \<open>read\<close> on \<open>f\<close> is interrupted, and the world after that
  \<open>read\<close>.\<close>

definition interrupt_next :: "fd \<Rightarrow> rresult list \<Rightarrow> world \<Rightarrow> world" where
  "interrupt_next f rest w = w\<lparr>rd_script := (rd_script w)(f := RFail EINTR # rest)\<rparr>"

definition interrupted :: "fd \<Rightarrow> rresult list \<Rightarrow> world \<Rightarrow> world" where
  "interrupted f rest w =
     emit (SysRead f [] (-1) EINTR) (w\<lparr>rd_script := (rd_script w)(f := rest), errno := EINTR\<rparr>)"

text \<open>C1 (the code differs): the loops around \<open>read\<close> of lines 198 and 211 go on while
  the result is 1, not \<open>-1\<close>. An interrupted \<open>read\<close> is not retried there: the loop ends
  with \<open>-1\<close>. In the socket branch that is \<open>goto Exit\<close>, and what the next \<open>read\<close> would
  deliver is never read; in the branch of standard input \<open>-1\<close> goes to \<open>ptls_send\<close> as the
  length \<open>2^64 - 1\<close>. The loop of \<open>run_handshake\<close> (line 117), with \<open>-1\<close>, reads again.\<close>

theorem interrupted_read_not_retried:
  "read_while 1 f buf cap (interrupt_next f rest w) = Some ((-1, buf), interrupted f rest w) \<and>
   socket_branch f wbuf rbuf (interrupt_next f rest w) = Some (Leave (), interrupted f rest w) \<and>
   to_size_t (-1) = 18446744073709551615 \<and>
   read_while (-1) f buf cap (interrupt_next f rest w) =
     read_while (-1) f buf cap (interrupted f rest w)"
proof -
  have sr: "sys_read f buf cap (interrupt_next f rest w) = Some ((-1, buf), interrupted f rest w)"
    for buf cap
    by (simp add: sys_read_def interrupt_next_def interrupted_def)
  have e: "errno (interrupted f rest w) = EINTR"
    by (simp add: interrupted_def emit_def)
  have one: "read_while 1 f buf cap (interrupt_next f rest w) =
               Some ((-1, buf), interrupted f rest w)" for buf cap
    by (subst read_while.simps) (simp add: sr)
  have "socket_branch f wbuf rbuf (interrupt_next f rest w) = Some (Leave (), interrupted f rest w)"
    by (simp add: socket_branch_def one)
  moreover have "read_while (-1) f buf cap (interrupt_next f rest w) =
     read_while (-1) f buf cap (interrupted f rest w)"
    by (subst read_while.simps) (simp add: sr e)
  moreover have "to_size_t (-1) = 18446744073709551615"
    by (simp add: to_size_t_def SIZE_MOD_def)
  ultimately show ?thesis using one by blast
qed

text \<open>On a concrete socket: the first \<open>read\<close> is interrupted, the second would deliver
  a byte. The socket branch leaves after the first; the loop of \<open>run_handshake\<close> gets the
  byte.\<close>

definition interrupted_socket :: world where
  "interrupted_socket = interrupt_next 3 [Deliver [7]] idle"

lemma interrupted_socket_run:
  "map_option (\<lambda>(fl, w'). (fl, new_events interrupted_socket w'))
     (socket_branch 3 (ptls_buffer_init (replicate 1024 0)) (replicate 1024 0) interrupted_socket) =
     Some (Leave (), [SysRead 3 [] (-1) EINTR]) \<and>
   map_option (\<lambda>((rret, buf), w'). (rret, take 4 buf, new_events interrupted_socket w'))
     (read_while (-1) 3 (replicate 1024 0) 1024 interrupted_socket) =
     Some (1, [7, 0, 0, 0], [SysRead 3 [] (-1) EINTR, SysRead 3 [7] 1 EINTR])"
  by code_simp

section \<open>The pump \<open>decrypt_and_print\<close>\<close>

text \<open>A world that differs from \<open>w\<close> by writes only: every script but those of the
  descriptors' writes is as in \<open>w\<close>.\<close>

definition writes_only :: "world \<Rightarrow> world \<Rightarrow> bool" where
  "writes_only w w' \<longleftrightarrow>
     rd_script w' = rd_script w \<and> select_script w' = select_script w \<and>
     socket_script w' = socket_script w \<and> connect_script w' = connect_script w \<and>
     handshake_script w' = handshake_script w \<and> receive_script w' = receive_script w \<and>
     send_script w' = send_script w"

lemma writes_only_refl: "writes_only w w"
  by (simp add: writes_only_def)

lemma writes_only_trans: "writes_only w w1 \<Longrightarrow> writes_only w1 w2 \<Longrightarrow> writes_only w w2"
  by (simp add: writes_only_def)

lemma sys_write_writes_only: "sys_write f data len w = Some (r, w1) \<Longrightarrow> writes_only w w1"
  by (auto simp: sys_write_def emit_def Let_def writes_only_def split: list.splits wresult.splits)

lemma write_retry_writes_only:
  "write_retry f data len w = Some (r, w') \<Longrightarrow> writes_only w w'"
proof (induction f data len w rule: write_retry.induct)
  case (1 f data len w)
  from "1.prems" obtain wret w1 where sw: "sys_write f data len w = Some (wret, w1)"
    by (subst (asm) write_retry.simps) (auto split: option.splits)
  show ?case
  proof (cases "wret = -1 \<and> errno w1 = EINTR")
    case True
    with "1.prems" sw have "write_retry f data len w1 = Some (r, w')"
      by (subst (asm) write_retry.simps) simp
    from "1.IH"[OF sw refl True this] sys_write_writes_only[OF sw] show ?thesis
      by (rule writes_only_trans[rotated])
  next
    case False
    with "1.prems" sw have "w' = w1"
      by (subst (asm) write_retry.simps) auto
    with sys_write_writes_only[OF sw] show ?thesis by simp
  qed
qed

lemma write_all_writes_only:
  "write_all f data len w = Some (r, w') \<Longrightarrow> writes_only w w'"
proof (induction f data len w rule: write_all.induct)
  case (1 f data len w)
  show ?case
  proof (cases "len = 0")
    case True
    with "1.prems" show ?thesis
      by (subst (asm) write_all.simps) (simp add: writes_only_refl)
  next
    case False
    with "1.prems" obtain wret w1 where wr: "write_retry f data len w = Some (wret, w1)"
      by (subst (asm) write_all.simps) (auto split: option.splits)
    note a = write_retry_writes_only[OF wr]
    show ?thesis
    proof (cases "wret \<le> 0")
      case True
      with "1.prems" False wr have "w' = w1"
        by (subst (asm) write_all.simps) simp
      with a show ?thesis by simp
    next
      case pos: False
      with "1.prems" False wr
      have "write_all f (drop (nat wret) data) (len - nat wret) w1 = Some (r, w')"
        by (subst (asm) write_all.simps) simp
      from "1.IH"[OF False wr refl pos this] a show ?thesis
        by (rule writes_only_trans[rotated])
    qed
  qed
qed

text \<open>The plaintext the engine produced along a trace, and the number of bytes it
  reported as consumed.\<close>

fun produced :: "event list \<Rightarrow> byte list" where
  "produced [] = []"
| "produced (PtlsReceive i r c out # evs) = out @ produced evs"
| "produced (ev # evs) = produced evs"

fun consumed_total :: "event list \<Rightarrow> nat" where
  "consumed_total [] = 0"
| "consumed_total (PtlsReceive i r c out # evs) = c + consumed_total evs"
| "consumed_total (ev # evs) = consumed_total evs"

fun unseal_calls :: "event list \<Rightarrow> nat" where
  "unseal_calls [] = 0"
| "unseal_calls (PtlsReceive i r c out # evs) = Suc (unseal_calls evs)"
| "unseal_calls (ev # evs) = unseal_calls evs"

text \<open>The unsealing calls of a trace follow the cursor over \<open>span\<close>: each call is
  offered what is left of the span, which is not empty, and the next one what is left
  after the bytes the call consumed.\<close>

fun cursor_chain :: "byte list \<Rightarrow> event list \<Rightarrow> bool" where
  "cursor_chain span [] = True"
| "cursor_chain span (PtlsReceive i r c out # evs) =
     (span \<noteq> [] \<and> i = span \<and> cursor_chain (drop c span) evs)"
| "cursor_chain span (ev # evs) = cursor_chain span evs"

text \<open>The engine's side of the contract of \<open>ptls_receive\<close> on a trace: a call that
  succeeds consumes at least one byte and at most what it was offered.\<close>

fun in_contract :: "event \<Rightarrow> bool" where
  "in_contract (PtlsReceive i r c out) = (r = 0 \<longrightarrow> 1 \<le> c \<and> c \<le> length i)"
| "in_contract ev = True"

lemma written_writes: "\<forall>e \<in> set evs. write_on f e \<Longrightarrow> produced evs = [] \<and> consumed_total evs = 0 \<and> unseal_calls evs = 0 \<and> cursor_chain span evs \<and> (\<forall>e \<in> set evs. in_contract e)"
proof (induction evs)
  case Nil
  then show ?case by simp
next
  case (Cons e evs)
  then show ?case by (cases e) auto
qed

text \<open>One turn of the loop that goes on: the engine's answer \<open>a\<close> is the head of the
  script, and the events are the call followed by the writes that flush its plaintext.\<close>

lemma dp_body_Again:
  assumes "dp_body b input inlen w = Some (Again (b', input', inlen'), w')" and "off b = 0"
  shows "\<exists>c out wevs.
           (\<exists>a. receive_script w = a # receive_script w' \<and> reply_ret a = 0 \<and>
                reply_consumed a = c \<and> reply_output a = out) \<and>
           input' = drop c input \<and> inlen' = size_sub inlen c \<and> off b' = 0 \<and>
           new_events w w' = PtlsReceive (take inlen input) 0 c out # wevs \<and>
           (\<forall>e \<in> set wevs. write_on 1 e) \<and> written 1 wevs = out"
proof -
  from assms(1) obtain a rest where scr: "receive_script w = a # rest"
    by (auto simp: dp_body_def ptls_receive_def split: list.splits)
  define w1 where "w1 = emit (PtlsReceive (take inlen input) (reply_ret a) (reply_consumed a)
                                (reply_output a)) (w\<lparr>receive_script := rest\<rparr>)"
  define b1 where "b1 = buffer_push b (reply_output a)"
  have rc: "ptls_receive b input inlen w = Some ((reply_ret a, b1, reply_consumed a), w1)"
    using scr by (simp add: ptls_receive_def w1_def b1_def)
  have ret: "reply_ret a = 0"
    using assms(1) rc by (auto simp: dp_body_def split: if_splits)
  have b1: "off b1 = length (reply_output a)" "take (off b1) (base b1) = reply_output a"
    "off b1 \<le> length (base b1)"
    using assms(2) by (simp_all add: b1_def buffer_push_def)
  have ev1: "new_events w w1 = [PtlsReceive (take inlen input) 0 (reply_consumed a) (reply_output a)]"
    by (simp add: w1_def emit_def new_events_def ret)
  have a1: "advances w w1" using ptls_receive_advances[OF rc] by simp
  have r1: "receive_script w1 = rest" by (simp add: w1_def emit_def)
  show ?thesis
  proof (cases "off b1 = 0")
    case True
    with assms(1) rc ret have "w' = w1" "b' = b1" "input' = drop (reply_consumed a) input"
      "inlen' = size_sub inlen (reply_consumed a)"
      by (auto simp: dp_body_def Let_def)
    with True b1 scr r1 ret ev1 show ?thesis by auto
  next
    case False
    with assms(1) rc ret obtain wa where
      wa: "write_all 1 (base b1) (off b1) w1 = Some (wa, w')"
      by (auto simp: dp_body_def Let_def split: option.splits if_splits)
    with assms(1) rc ret False have res: "wa = 0" "b' = b1\<lparr>off := 0\<rparr>"
      "input' = drop (reply_consumed a) input" "inlen' = size_sub inlen (reply_consumed a)"
      by (auto simp: dp_body_def Let_def split: if_splits)
    from write_all_events[OF wa b1(3)] res(1) b1(2)
    have post: "\<forall>e \<in> set (new_events w1 w'). write_on 1 e"
      "written 1 (new_events w1 w') = reply_output a"
      by (auto simp: write_all_post_def)
    have "new_events w w' = new_events w w1 @ new_events w1 w'"
      using a1 write_all_advances[OF wa] by (rule new_events_trans)
    moreover have "receive_script w' = rest"
      using write_all_writes_only[OF wa] r1 by (simp add: writes_only_def)
    ultimately show ?thesis
      using scr ret res ev1 post by auto
  qed
qed


text \<open>One turn of the loop that returns: it is the last unsealing call of the run.\<close>

lemma dp_body_Leave:
  assumes "dp_body b input inlen w = Some (Leave r, w')" and "off b = 0"
  shows "\<exists>rt c out tl. r = -1 \<and>
           new_events w w' = PtlsReceive (take inlen input) rt c out # tl \<and>
           unseal_calls tl = 0 \<and> (\<forall>span. cursor_chain span tl) \<and> (\<forall>e \<in> set tl. in_contract e)"
proof -
  from assms obtain a rest where scr: "receive_script w = a # rest"
    by (auto simp: dp_body_def ptls_receive_def split: list.splits)
  define w1 where "w1 = emit (PtlsReceive (take inlen input) (reply_ret a) (reply_consumed a)
                                (reply_output a)) (w\<lparr>receive_script := rest\<rparr>)"
  define b1 where "b1 = buffer_push b (reply_output a)"
  have rc: "ptls_receive b input inlen w = Some ((reply_ret a, b1, reply_consumed a), w1)"
    using scr by (simp add: ptls_receive_def w1_def b1_def)
  have ev1: "new_events w w1 =
      [PtlsReceive (take inlen input) (reply_ret a) (reply_consumed a) (reply_output a)]"
    by (simp add: w1_def emit_def new_events_def)
  have a1: "advances w w1" using ptls_receive_advances[OF rc] by simp
  show ?thesis
  proof (cases "reply_ret a = 0")
    case False
    with assms rc have "r = -1" "w' = emit (Stderr ''ptls_receive'' (reply_ret a)) w1"
      by (auto simp: dp_body_def)
    moreover have "new_events w (emit (Stderr ''ptls_receive'' (reply_ret a)) w1) =
        [PtlsReceive (take inlen input) (reply_ret a) (reply_consumed a) (reply_output a),
         Stderr ''ptls_receive'' (reply_ret a)]"
      by (simp add: w1_def emit_def new_events_def)
    ultimately show ?thesis by auto
  next
    case True
    with assms rc obtain wa where
      wa: "write_all 1 (base b1) (off b1) w1 = Some (wa, w')" and r: "r = -1"
      by (auto simp: dp_body_def Let_def split: option.splits if_splits)
    have "off b1 \<le> length (base b1)"
      using assms(2) by (simp add: b1_def buffer_push_def)
    from write_all_events[OF wa this]
    have on: "\<forall>e \<in> set (new_events w1 w'). write_on 1 e"
      by (simp add: write_all_post_def)
    have "new_events w w' = new_events w w1 @ new_events w1 w'"
      using a1 write_all_advances[OF wa] by (rule new_events_trans)
    with ev1 r on written_writes[OF on] show ?thesis
      by auto
  qed
qed


lemma size_sub_le: "c \<le> n \<Longrightarrow> size_sub n c = n - c"
  by (simp add: size_sub_def)

lemma dp_loop_run:
  "dp_loop b input inlen w = Some (r, w') \<Longrightarrow> off b = 0 \<Longrightarrow> inlen \<le> length input \<Longrightarrow>
   \<forall>e \<in> set (new_events w w'). in_contract e \<Longrightarrow>
     cursor_chain (take inlen input) (new_events w w') \<and>
     unseal_calls (new_events w w') \<le> inlen \<and>
     (r = 0 \<or> r = -1) \<and>
     (r = 0 \<longrightarrow> consumed_total (new_events w w') = inlen \<and>
                written 1 (new_events w w') = produced (new_events w w'))"
proof (induction b input inlen w rule: dp_loop.induct)
  case (1 b input inlen w)
  show ?case
  proof (cases "inlen = 0")
    case True
    with "1.prems"(1) have "r = 0" "w' = w"
      by (subst (asm) dp_loop.simps; simp)+
    with True show ?thesis by (simp add: new_events_def)
  next
    case False
    with "1.prems"(1) obtain fl w1 where body: "dp_body b input inlen w = Some (fl, w1)"
      by (subst (asm) dp_loop.simps) (auto split: option.splits)
    have span: "take inlen input \<noteq> []"
      using False "1.prems"(3) by auto
    show ?thesis
    proof (cases fl)
      case (Leave x)
      with "1.prems"(1) False body have eq: "w' = w1" "r = x"
        by (subst (asm) dp_loop.simps; simp)+
      from dp_body_Leave[OF body[unfolded Leave] "1.prems"(2)] obtain rt c out tl where
        x: "x = -1" and ev: "new_events w w1 = PtlsReceive (take inlen input) rt c out # tl"
        and tl: "unseal_calls tl = 0" "\<forall>span. cursor_chain span tl"
        by blast
      have "cursor_chain (take inlen input) (new_events w w')"
        unfolding eq ev using span tl by simp
      moreover have "unseal_calls (new_events w w') \<le> inlen"
        unfolding eq ev using False tl by simp
      ultimately show ?thesis using eq x by simp
    next
      case (Again st)
      obtain b1 i1 n1 where st: "st = (b1, i1, n1)" by (cases st)
      with "1.prems"(1) False body Again have rec: "dp_loop b1 i1 n1 w1 = Some (r, w')"
        by (subst (asm) dp_loop.simps) simp
      from dp_body_Again[OF body[unfolded Again st] "1.prems"(2)] obtain c out wevs where
        i1: "i1 = drop c input"
        and n1: "n1 = size_sub inlen c" and off1: "off b1 = 0"
        and ev1: "new_events w w1 = PtlsReceive (take inlen input) 0 c out # wevs"
        and on: "\<forall>e \<in> set wevs. write_on 1 e" and wr: "written 1 wevs = out"
        by blast
      have split: "new_events w w' = new_events w w1 @ new_events w1 w'"
        using dp_body_advances(1)[OF body] dp_loop_advances[OF rec] by (rule new_events_trans)
      from "1.prems"(4) split ev1
      have c: "1 \<le> c" "c \<le> inlen"
        and contract': "\<forall>e \<in> set (new_events w1 w'). in_contract e"
        using "1.prems"(3) by auto
      from c have n1': "n1 = inlen - c"
        by (simp add: n1 size_sub_le)
      with i1 "1.prems"(3) have len1: "n1 \<le> length i1" by simp
      note IH = "1.IH"[OF False body refl Again[unfolded st] refl refl rec off1 len1 contract']
      have spans: "take n1 i1 = drop (c) (take inlen input)"
        by (simp add: n1' i1 drop_take)
      note ww = written_writes[OF on]
      have chain: "cursor_chain (take inlen input) (new_events w w')"
      proof -
        have "cursor_chain (drop (c) (take inlen input)) (wevs @ new_events w1 w')"
          using on IH[THEN conjunct1]
          unfolding spans
        proof (induction wevs)
          case Nil
          then show ?case by simp
        next
          case (Cons e es)
          then show ?case by (cases e) auto
        qed
        with span show ?thesis by (simp add: split ev1)
      qed
      have calls: "unseal_calls (new_events w w') \<le> inlen"
      proof -
        have "unseal_calls (wevs @ new_events w1 w') = unseal_calls (new_events w1 w')"
          using on
        proof (induction wevs)
          case Nil
          then show ?case by simp
        next
          case (Cons e es)
          then show ?case by (cases e) auto
        qed
        moreover from IH n1' have "unseal_calls (new_events w1 w') \<le> inlen - c"
          by simp
        ultimately show ?thesis using c by (simp add: split ev1)
      qed
      have total: "consumed_total (new_events w w') = c + consumed_total (new_events w1 w')"
        and prod: "produced (new_events w w') = out @ produced (new_events w1 w')"
      proof -
        have "consumed_total (wevs @ new_events w1 w') = consumed_total (new_events w1 w') \<and>
              produced (wevs @ new_events w1 w') = produced (new_events w1 w')"
          using on
        proof (induction wevs)
          case Nil
          then show ?case by simp
        next
          case (Cons e es)
          then show ?case by (cases e) auto
        qed
        then show "consumed_total (new_events w w') = c + consumed_total (new_events w1 w')"
          and "produced (new_events w w') = out @ produced (new_events w1 w')"
          by (simp_all add: split ev1)
      qed
      have wrt: "written 1 (new_events w w') = out @ written 1 (new_events w1 w')"
        by (simp add: split ev1 written_append wr)
      from IH chain calls total prod wrt c n1' show ?thesis by auto
    qed
  qed
qed


lemma writes_skip:
  "\<forall>e \<in> set wevs. write_on f e \<Longrightarrow> produced (wevs @ evs) = produced evs"
proof (induction wevs)
  case Nil
  then show ?case by simp
next
  case (Cons e es)
  then show ?case by (cases e) auto
qed

lemma dp_loop_flushed:
  "dp_loop b input inlen w = Some (0, w') \<Longrightarrow> off b = 0 \<Longrightarrow>
     written 1 (new_events w w') = produced (new_events w w')"
proof (induction b input inlen w rule: dp_loop.induct)
  case (1 b input inlen w)
  show ?case
  proof (cases "inlen = 0")
    case True
    with "1.prems"(1) have "w' = w"
      by (subst (asm) dp_loop.simps) simp
    then show ?thesis by (simp add: new_events_def)
  next
    case False
    with "1.prems"(1) obtain fl w1 where body: "dp_body b input inlen w = Some (fl, w1)"
      by (subst (asm) dp_loop.simps) (auto split: option.splits)
    show ?thesis
    proof (cases fl)
      case (Leave x)
      with "1.prems"(1) False body have "x = 0"
        by (subst (asm) dp_loop.simps) simp
      with dp_body_Leave[OF body[unfolded Leave] "1.prems"(2)] show ?thesis
        by auto
    next
      case (Again st)
      obtain b1 i1 n1 where st: "st = (b1, i1, n1)" by (cases st)
      with "1.prems"(1) False body Again have rec: "dp_loop b1 i1 n1 w1 = Some (0, w')"
        by (subst (asm) dp_loop.simps) simp
      from dp_body_Again[OF body[unfolded Again st] "1.prems"(2)] obtain c out wevs where
        off1: "off b1 = 0"
        and ev1: "new_events w w1 = PtlsReceive (take inlen input) 0 c out # wevs"
        and on: "\<forall>e \<in> set wevs. write_on 1 e" and wr: "written 1 wevs = out"
        by blast
      have split: "new_events w w' = new_events w w1 @ new_events w1 w'"
        using dp_body_advances(1)[OF body] dp_loop_advances[OF rec] by (rule new_events_trans)
      from "1.IH"[OF False body refl Again[unfolded st] refl refl rec off1]
      show ?thesis
        by (simp add: split ev1 written_append wr writes_skip[OF on])
    qed
  qed
qed

text \<open>The script of the engine serves a span of \<open>n\<close> bytes: as long as bytes are left
  there is an answer, and an answer that reports success consumes at least one byte and
  at most those that are left.\<close>

fun serves :: "nat \<Rightarrow> engine_reply list \<Rightarrow> bool" where
  "serves n [] = (n = 0)"
| "serves n (a # rest) =
     (n = 0 \<or> reply_ret a \<noteq> 0 \<or>
      (1 \<le> reply_consumed a \<and> reply_consumed a \<le> n \<and> serves (n - reply_consumed a) rest))"

definition output_total :: "engine_reply list \<Rightarrow> nat" where
  "output_total script = sum_list (map (\<lambda>a. length (reply_output a)) script)"

lemma dp_loop_total:
  "receive_script w = script \<Longrightarrow> serves n script \<Longrightarrow>
   output_total script \<le> answers (wr_script w 1) \<Longrightarrow> off b = 0 \<Longrightarrow>
     \<exists>r w'. dp_loop b input n w = Some (r, w')"
proof (induction script arbitrary: w n b input)
  case Nil
  then show ?case by (subst dp_loop.simps) simp
next
  case (Cons a rest)
  show ?case
  proof (cases "n = 0")
    case True
    then show ?thesis by (subst dp_loop.simps) simp
  next
    case False
    define w1 where "w1 = emit (PtlsReceive (take n input) (reply_ret a) (reply_consumed a)
                                  (reply_output a)) (w\<lparr>receive_script := rest\<rparr>)"
    define b1 where "b1 = buffer_push b (reply_output a)"
    have rc: "ptls_receive b input n w = Some ((reply_ret a, b1, reply_consumed a), w1)"
      using Cons.prems(1) by (simp add: ptls_receive_def w1_def b1_def)
    have w1: "receive_script w1 = rest" "wr_script w1 = wr_script w"
      by (simp_all add: w1_def emit_def)
    have b1: "off b1 = length (reply_output a)"
      using Cons.prems(4) by (simp add: b1_def buffer_push_def)
    have out: "length (reply_output a) + output_total rest \<le> answers (wr_script w 1)"
      using Cons.prems(3) by (simp add: output_total_def)
    show ?thesis
    proof (cases "reply_ret a = 0")
      case ret: False
      with rc have "dp_body b input n w = Some (Leave (-1), emit (Stderr ''ptls_receive'' (reply_ret a)) w1)"
        by (simp add: dp_body_def)
      with False show ?thesis by (subst dp_loop.simps) simp
    next
      case ret: True
      with Cons.prems(2) False have c: "1 \<le> reply_consumed a" "reply_consumed a \<le> n"
        and srv: "serves (n - reply_consumed a) rest"
        by auto
      have sub: "size_sub n (reply_consumed a) = n - reply_consumed a"
        using c by (simp add: size_sub_le)
      show ?thesis
      proof (cases "off b1 = 0")
        case True
        with rc ret sub have body: "dp_body b input n w =
            Some (Again (b1, drop (reply_consumed a) input, n - reply_consumed a), w1)"
          by (simp add: dp_body_def)
        from out w1 have "output_total rest \<le> answers (wr_script w1 1)" by simp
        from Cons.IH[OF w1(1) srv this True] obtain r w' where
          "dp_loop b1 (drop (reply_consumed a) input) (n - reply_consumed a) w1 = Some (r, w')"
          by blast
        with body False show ?thesis by (subst dp_loop.simps) simp
      next
        case nz: False
        from out b1 w1 have "off b1 \<le> answers (wr_script w1 1)" by simp
        from write_all_total[OF this] obtain wa w2 where
          wa: "write_all 1 (base b1) (off b1) w1 = Some (wa, w2)"
          and an: "answers (wr_script w1 1) - off b1 \<le> answers (wr_script w2 1)"
          by blast
        show ?thesis
        proof (cases "wa = 0")
          case wz: False
          with rc ret nz wa have "dp_body b input n w = Some (Leave (-1), w2)"
            by (simp add: dp_body_def)
          with False show ?thesis by (subst dp_loop.simps) simp
        next
          case wz: True
          with rc ret nz wa sub have body: "dp_body b input n w =
              Some (Again (b1\<lparr>off := 0\<rparr>, drop (reply_consumed a) input, n - reply_consumed a), w2)"
            by (simp add: dp_body_def)
          have r2: "receive_script w2 = rest"
            using write_all_writes_only[OF wa] w1 by (simp add: writes_only_def)
          from out an b1 w1 have "output_total rest \<le> answers (wr_script w2 1)" by simp
          from Cons.IH[OF r2 srv this, of "b1\<lparr>off := 0\<rparr>" "drop (reply_consumed a) input"]
          obtain r w' where
            "dp_loop (b1\<lparr>off := 0\<rparr>) (drop (reply_consumed a) input) (n - reply_consumed a) w2 =
               Some (r, w')"
            by auto
          with body False show ?thesis by (subst dp_loop.simps) simp
        qed
      qed
    qed
  qed
qed


definition three_records :: world where
  "three_records =
     idle\<lparr>receive_script := [reply 0 2 [10, 11], reply 0 1 [], reply 0 2 [12]],
          wr_script := (\<lambda>_. [])(1 := [Accept 1, Accept 5, Accept 5])\<rparr>"

lemma three_records_run:
  "outcome three_records (decrypt_and_print [1, 2, 3, 4, 5] 5 three_records) =
     Some (0, [PtlsReceive [1, 2, 3, 4, 5] 0 2 [10, 11], SysWrite 1 [10] 1 0, SysWrite 1 [11] 1 0,
               PtlsReceive [3, 4, 5] 0 1 [], PtlsReceive [4, 5] 0 2 [12], SysWrite 1 [12] 1 0])"
  by code_simp

text \<open>C5: a turn of the loop of \<open>decrypt_and_print\<close> that starts with an empty output
  buffer and goes on to the next turn leaves the buffer empty (\<open>off\<close> is 0), whether the
  call produced plaintext or not; its events are the unsealing call followed by writes to
  standard output that transfer exactly the plaintext of the call. The buffer is empty
  at the first turn, and a run that returns 0 has written all the plaintext produced.\<close>

theorem output_buffer_reset:
  "(dp_body b input inlen w = Some (Again (b', input', inlen'), w') \<and> off b = 0 \<longrightarrow>
      off b' = 0 \<and>
      (\<exists>c out wevs. new_events w w' = PtlsReceive (take inlen input) 0 c out # wevs \<and>
         (\<forall>e \<in> set wevs. write_on 1 e) \<and> written 1 wevs = out)) \<and>
   off (ptls_buffer_init small) = 0 \<and>
   (decrypt_and_print input n w = Some (0, w'') \<longrightarrow>
      written 1 (new_events w w'') = produced (new_events w w''))"
proof -
  have "off b' = 0 \<and>
      (\<exists>c out wevs. new_events w w' = PtlsReceive (take inlen input) 0 c out # wevs \<and>
         (\<forall>e \<in> set wevs. write_on 1 e) \<and> written 1 wevs = out)"
    if "dp_body b input inlen w = Some (Again (b', input', inlen'), w')" "off b = 0"
    using dp_body_Again[OF that] by blast
  moreover have "written 1 (new_events w w'') = produced (new_events w w'')"
    if "decrypt_and_print input n w = Some (0, w'')"
    using dp_loop_flushed[OF that[unfolded decrypt_and_print_def]]
    by (simp add: ptls_buffer_init_def)
  ultimately show ?thesis
    by (simp add: ptls_buffer_init_def)
qed


text \<open>What a turn of the pump's loop is seen to do: the return value, or the \<open>off\<close> of
  the buffer, the input and the length the next turn starts with; and the events added.\<close>

definition turn_outcome ::
  "world \<Rightarrow> ((int, ptls_buffer \<times> byte list \<times> nat) flow \<times> world) option \<Rightarrow>
     ((int, nat \<times> byte list \<times> nat) flow \<times> event list) option" where
  "turn_outcome w res =
     map_option (\<lambda>(fl, w').
       (case fl of Leave r \<Rightarrow> Leave r | Again (b, i, n) \<Rightarrow> Again (off b, i, n),
        new_events w w')) res"

lemma turn_outcome_AgainD:
  "turn_outcome w res = Some (Again (k, i, n), evs) \<Longrightarrow>
     \<exists>b w'. res = Some (Again (b, i, n), w') \<and> off b = k \<and> new_events w w' = evs"
proof -
  assume a: "turn_outcome w res = Some (Again (k, i, n), evs)"
  then obtain fl w' where res: "res = Some (fl, w')"
    by (auto simp: turn_outcome_def)
  show ?thesis
  proof (cases fl)
    case (Leave x)
    with a res show ?thesis by (simp add: turn_outcome_def)
  next
    case (Again st)
    obtain b i' n' where "st = (b, i', n')" by (cases st)
    with a res Again show ?thesis by (simp add: turn_outcome_def)
  qed
qed

definition silent_record :: world where
  "silent_record = idle\<lparr>receive_script := [reply 0 1 []]\<rparr>"

lemma three_records_turn:
  "turn_outcome three_records
     (dp_body (ptls_buffer_init (replicate 1024 0)) [1, 2, 3, 4, 5] 5 three_records) =
     Some (Again (0, [3, 4, 5], 3),
           [PtlsReceive [1, 2, 3, 4, 5] 0 2 [10, 11], SysWrite 1 [10] 1 0, SysWrite 1 [11] 1 0])"
  by code_simp

lemma silent_record_turn:
  "turn_outcome silent_record
     (dp_body (ptls_buffer_init (replicate 1024 0)) [1, 2, 3, 4, 5] 5 silent_record) =
     Some (Again (0, [2, 3, 4, 5], 4), [PtlsReceive [1, 2, 3, 4, 5] 0 1 []])"
  by code_simp

theorem output_buffer_reset_witness:
  "(\<exists>b' w'. dp_body (ptls_buffer_init (replicate 1024 0)) [1, 2, 3, 4, 5] 5 three_records =
       Some (Again (b', [3, 4, 5], 3), w') \<and> off b' = 0 \<and>
       new_events three_records w' =
         [PtlsReceive [1, 2, 3, 4, 5] 0 2 [10, 11], SysWrite 1 [10] 1 0, SysWrite 1 [11] 1 0]) \<and>
   (\<exists>b' w'. dp_body (ptls_buffer_init (replicate 1024 0)) [1, 2, 3, 4, 5] 5 silent_record =
       Some (Again (b', [2, 3, 4, 5], 4), w') \<and> off b' = 0 \<and>
       new_events silent_record w' = [PtlsReceive [1, 2, 3, 4, 5] 0 1 []]) \<and>
   (\<exists>w'. decrypt_and_print [1, 2, 3, 4, 5] 5 three_records = Some (0, w') \<and>
       written 1 (new_events three_records w') = [10, 11, 12] \<and>
       produced (new_events three_records w') = [10, 11, 12])"
proof -
  let ?b = "ptls_buffer_init (replicate 1024 0)"
  have off0: "off ?b = 0" by (simp add: ptls_buffer_init_def)
  from turn_outcome_AgainD[OF three_records_turn] obtain b1 w1 where
    t1: "dp_body ?b [1, 2, 3, 4, 5] 5 three_records = Some (Again (b1, [3, 4, 5], 3), w1)"
    and e1: "new_events three_records w1 =
         [PtlsReceive [1, 2, 3, 4, 5] 0 2 [10, 11], SysWrite 1 [10] 1 0, SysWrite 1 [11] 1 0]"
    by blast
  from turn_outcome_AgainD[OF silent_record_turn] obtain b2 w2 where
    t2: "dp_body ?b [1, 2, 3, 4, 5] 5 silent_record = Some (Again (b2, [2, 3, 4, 5], 4), w2)"
    and e2: "new_events silent_record w2 = [PtlsReceive [1, 2, 3, 4, 5] 0 1 []]"
    by blast
  from three_records_run obtain w3 where
    t3: "decrypt_and_print [1, 2, 3, 4, 5] 5 three_records = Some (0, w3)"
    and e3: "new_events three_records w3 =
       [PtlsReceive [1, 2, 3, 4, 5] 0 2 [10, 11], SysWrite 1 [10] 1 0, SysWrite 1 [11] 1 0,
        PtlsReceive [3, 4, 5] 0 1 [], PtlsReceive [4, 5] 0 2 [12], SysWrite 1 [12] 1 0]"
    by (blast dest: outcome_SomeD)
  from output_buffer_reset[where b = ?b and input = "[1, 2, 3, 4, 5]" and inlen = 5
         and w = three_records and b' = b1 and input' = "[3, 4, 5]" and inlen' = 3 and w' = w1
         and n = 5 and w'' = w3] t1 t3 off0
  have r1: "off b1 = 0"
    and r3: "written 1 (new_events three_records w3) = produced (new_events three_records w3)"
    by simp_all
  from output_buffer_reset[where b = ?b and input = "[1, 2, 3, 4, 5]" and inlen = 5
         and w = silent_record and b' = b2 and input' = "[2, 3, 4, 5]" and inlen' = 4 and w' = w2]
       t2 off0
  have r2: "off b2 = 0"
    by simp
  have "produced (new_events three_records w3) = [10, 11, 12]"
    by (simp add: e3)
  with r3 have "written 1 (new_events three_records w3) = [10, 11, 12]" by simp
  with t1 e1 r1 t2 e2 r2 t3 \<open>produced (new_events three_records w3) = [10, 11, 12]\<close>
  show ?thesis by blast
qed

section \<open>The leftover of the handshake\<close>

lemma write_all_writes:
  "write_all f data len w = Some (r, w') \<Longrightarrow> \<forall>e \<in> set (new_events w w'). write_on f e"
proof (induction f data len w rule: write_all.induct)
  case (1 f data len w)
  show ?case
  proof (cases "len = 0")
    case True
    with "1.prems" have "w' = w"
      by (subst (asm) write_all.simps) simp
    then show ?thesis by (simp add: new_events_def)
  next
    case False
    with "1.prems" obtain wret w1 where wr: "write_retry f data len w = Some (wret, w1)"
      by (subst (asm) write_all.simps) (auto split: option.splits)
    from write_retry_events[OF wr] have on1: "\<forall>e \<in> set (new_events w w1). write_on f e"
      by auto
    show ?thesis
    proof (cases "wret \<le> 0")
      case True
      with "1.prems" False wr have "w' = w1"
        by (subst (asm) write_all.simps) simp
      with on1 show ?thesis by simp
    next
      case pos: False
      with "1.prems" False wr
      have rec: "write_all f (drop (nat wret) data) (len - nat wret) w1 = Some (r, w')"
        by (subst (asm) write_all.simps) simp
      have "new_events w w' = new_events w w1 @ new_events w1 w'"
        using write_retry_advances[OF wr] write_all_advances[OF rec]
        by (simp add: new_events_trans)
      with "1.IH"[OF False wr refl pos rec] on1 show ?thesis by auto
    qed
  qed
qed

text \<open>The bytes of the successive reads of a descriptor along a trace, and the lengths
  the successive handshake steps reported as consumed.\<close>

fun reads :: "fd \<Rightarrow> event list \<Rightarrow> byte list list" where
  "reads f [] = []"
| "reads f (SysRead g bs r e # evs) = (if g = f then bs # reads f evs else reads f evs)"
| "reads f (ev # evs) = reads f evs"

fun handshake_consumed :: "event list \<Rightarrow> nat list" where
  "handshake_consumed [] = []"
| "handshake_consumed (PtlsHandshake i r c # evs) = c # handshake_consumed evs"
| "handshake_consumed (ev # evs) = handshake_consumed evs"

text \<open>The bytes of the last read of the trace (those of \<open>before\<close> when the trace has no
  read), and what the last handshake step consumed.\<close>

definition final_read :: "byte list \<Rightarrow> fd \<Rightarrow> event list \<Rightarrow> byte list" where
  "final_read before f evs = last (before # reads f evs)"

definition final_consumed :: "event list \<Rightarrow> nat" where
  "final_consumed evs = last (0 # handshake_consumed evs)"

fun read_on :: "fd \<Rightarrow> event \<Rightarrow> bool" where
  "read_on f (SysRead g bs r e) = (g = f)"
| "read_on f ev = False"

lemma reads_append: "reads f (xs @ ys) = reads f xs @ reads f ys"
  by (induction f xs rule: reads.induct) auto

lemma handshake_consumed_append:
  "handshake_consumed (xs @ ys) = handshake_consumed xs @ handshake_consumed ys"
  by (induction xs rule: handshake_consumed.induct) auto

lemma writes_no_reads:
  "\<forall>e \<in> set evs. write_on g e \<Longrightarrow> reads f evs = [] \<and> handshake_consumed evs = []"
proof (induction evs)
  case Nil
  then show ?case by simp
next
  case (Cons e evs)
  then show ?case by (cases e) auto
qed

lemma reads_no_handshake:
  "\<forall>e \<in> set evs. read_on g e \<Longrightarrow> handshake_consumed evs = []"
proof (induction evs)
  case Nil
  then show ?case by simp
next
  case (Cons e evs)
  then show ?case by (cases e) auto
qed

lemma sys_read_result:
  "sys_read f buf cap w = Some ((r, buf'), w1) \<Longrightarrow> cap \<le> length buf \<Longrightarrow>
     length buf' = length buf \<and> r \<le> int cap \<and>
     new_events w w1 = [SysRead f (take (nat r) buf') r (errno w1)]"
  by (auto simp: sys_read_def emit_def Let_def new_events_def min_def
           split: list.splits rresult.splits)

lemma read_while_result:
  "read_while v f buf cap w = Some ((r, buf'), w') \<Longrightarrow> cap \<le> length buf \<Longrightarrow>
     length buf' = length buf \<and> r \<le> int cap \<and>
     (\<forall>e \<in> set (new_events w w'). read_on f e) \<and>
     reads f (new_events w w') \<noteq> [] \<and>
     last (reads f (new_events w w')) = take (nat r) buf'"
proof (induction v f buf cap w rule: read_while.induct)
  case (1 v f buf cap w)
  from "1.prems"(1) obtain rret buf1 w1 where sr: "sys_read f buf cap w = Some ((rret, buf1), w1)"
    by (subst (asm) read_while.simps) (auto split: option.splits)
  note res = sys_read_result[OF sr "1.prems"(2)]
  show ?case
  proof (cases "rret = v \<and> errno w1 = EINTR")
    case True
    with "1.prems"(1) sr have rec: "read_while v f buf1 cap w1 = Some ((r, buf'), w')"
      by (subst (asm) read_while.simps) simp
    from res "1.prems"(2) have "cap \<le> length buf1" by simp
    note IH = "1.IH"[OF sr refl refl True rec this]
    have "new_events w w' = new_events w w1 @ new_events w1 w'"
      using sys_read_advances[OF sr] read_while_advances[OF rec] by (simp add: new_events_trans)
    with IH res show ?thesis by (simp add: reads_append)
  next
    case False
    with "1.prems"(1) sr have "w' = w1" "r = rret" "buf' = buf1"
      by (subst (asm) read_while.simps; auto)+
    with res show ?thesis by simp
  qed
qed


lemma hs_finish_advances: "hs_finish ret wbuf pin plen rret w = (res, w') \<Longrightarrow> advances w w'"
  by (auto simp: hs_finish_def Let_def emit_advances advances_refl split: if_splits)

lemma hs_loop_advances:
  "hs_loop f bufsz wbuf pin plen rret w = Some (res, w') \<Longrightarrow> advances w w'"
proof (induction f bufsz wbuf pin plen rret w rule: hs_loop.induct)
  case (1 f bufsz wbuf pin plen rret w)
  from "1.prems" obtain ret wbuf1 len1 w1 where
    hs: "ptls_handshake wbuf pin plen w = Some ((ret, wbuf1, len1), w1)"
    by (subst (asm) hs_loop.simps) (auto split: option.splits)
  note a1 = ptls_handshake_advances[OF hs, THEN conjunct1]
  show ?case
  proof (cases "ret = PTLS_ERROR_HANDSHAKE_IN_PROGRESS")
    case False
    with "1.prems" hs have "hs_finish ret wbuf1 pin len1 rret w1 = (res, w')"
      by (subst (asm) hs_loop.simps) simp
    from a1 hs_finish_advances[OF this] show ?thesis by (rule advances_trans)
  next
    case True
    with "1.prems" hs obtain wa w2 where
      wa: "write_all f (base wbuf1) (off wbuf1) w1 = Some (wa, w2)"
      by (subst (asm) hs_loop.simps) (auto split: option.splits)
    note a2 = advances_trans[OF a1 write_all_advances[OF wa]]
    show ?thesis
    proof (cases "wa = 0")
      case False
      with "1.prems" hs True wa have "w' = w2"
        by (subst (asm) hs_loop.simps) simp
      with a2 show ?thesis by simp
    next
      case wz: True
      with "1.prems" hs True wa obtain rret1 pin1 w3 where
        rd: "read_while (-1) f pin bufsz w2 = Some ((rret1, pin1), w3)"
        by (subst (asm) hs_loop.simps) (auto split: option.splits)
      note a3 = advances_trans[OF a2 read_while_advances[OF rd]]
      show ?thesis
      proof (cases "rret1 \<le> 0")
        case True
        with "1.prems" hs \<open>ret = PTLS_ERROR_HANDSHAKE_IN_PROGRESS\<close> wa wz rd have "w' = w3"
          by (subst (asm) hs_loop.simps) simp
        with a3 show ?thesis by simp
      next
        case pos: False
        with "1.prems" hs True wa wz rd
        have rec: "hs_loop f bufsz (wbuf1\<lparr>off := 0\<rparr>) pin1 (to_size_t rret1) rret1 w3 = Some (res, w')"
          by (subst (asm) hs_loop.simps) simp
        have nz: "\<not> wa \<noteq> 0" using wz by simp
        from "1.IH"[OF hs refl refl refl True wa refl nz rd refl refl pos rec] a3
        show ?thesis by (rule advances_trans[rotated])
      qed
    qed
  qed
qed


text \<open>What C3 asks of the buffer \<open>buf'\<close> and the pending length \<open>len'\<close> that
  \<open>run_handshake\<close> hands back, when the last read gave the bytes \<open>got\<close> and the last
  handshake step consumed \<open>c\<close> of them: the pending length is what is left, the pending
  bytes are the bytes of the read from \<open>c\<close> on, and when nothing is left the buffer still
  starts with the bytes of the read.\<close>

definition leftover :: "byte list \<Rightarrow> nat \<Rightarrow> byte list \<Rightarrow> nat \<Rightarrow> bool" where
  "leftover got c buf' len' \<longleftrightarrow>
     len' = length got - c \<and> take len' buf' = drop c got \<and>
     (c = length got \<longrightarrow> len' = 0 \<and> take (length got) buf' = got)"

lemma hs_finish_leftover:
  assumes "hs_finish 0 wbuf pin c rret w = ((r, wbuf', buf', len'), w')"
    and "0 \<le> rret" "nat rret \<le> length pin" "c \<le> nat rret"
  shows "leftover (take (nat rret) pin) c buf' len'"
proof -
  let ?R = "nat rret"
  from assms(2) have ts: "to_size_t rret = ?R" by (simp add: to_size_t_def)
  from assms(4) have sub: "size_sub ?R c = ?R - c" by (simp add: size_sub_le)
  from assms(1) have len': "len' = ?R - c"
    and buf': "buf' = (if ?R \<noteq> c then memmove_front pin c (?R - c) else pin)"
    by (auto simp: hs_finish_def ts sub)
  have lr: "length (take ?R pin) = ?R" using assms(3) by simp
  have "take (?R - c) buf' = drop c (take ?R pin)"
    using assms(3,4) by (simp add: buf' memmove_front_def drop_take)
  moreover have "take ?R buf' = take ?R pin" if "c = ?R"
    using that by (simp add: buf')
  ultimately show ?thesis
    unfolding leftover_def lr len' by simp
qed

lemma final_read_step:
  assumes "reads f e1 = []" "reads f e2 \<noteq> []"
  shows "final_read before f (e1 @ e2 @ e3) = final_read (last (reads f e2)) f e3"
  using assms by (simp add: final_read_def reads_append)

lemma final_consumed_step:
  assumes "handshake_consumed e3 \<noteq> []"
  shows "final_consumed (e1 @ e3) = final_consumed e3"
  using assms by (simp add: final_consumed_def handshake_consumed_append)

lemma hs_loop_leftover:
  "hs_loop f bufsz wbuf pin plen rret w = Some ((0, wbuf', buf', len'), w') \<Longrightarrow>
   bufsz \<le> length pin \<Longrightarrow> 0 \<le> rret \<Longrightarrow> nat rret \<le> length pin \<Longrightarrow>
     handshake_consumed (new_events w w') \<noteq> [] \<and>
     (final_consumed (new_events w w')
        \<le> length (final_read (take (nat rret) pin) f (new_events w w')) \<longrightarrow>
      leftover (final_read (take (nat rret) pin) f (new_events w w'))
        (final_consumed (new_events w w')) buf' len')"
proof (induction f bufsz wbuf pin plen rret w rule: hs_loop.induct)
  case (1 f bufsz wbuf pin plen rret w)
  from "1.prems"(1) obtain ret wbuf1 len1 w1 where
    hs: "ptls_handshake wbuf pin plen w = Some ((ret, wbuf1, len1), w1)"
    by (subst (asm) hs_loop.simps) (auto split: option.splits)
  have ev1: "new_events w w1 = [PtlsHandshake (take plen pin) ret len1]"
    using hs by (auto simp: ptls_handshake_def emit_def new_events_def split: list.splits)
  note a1 = ptls_handshake_advances[OF hs, THEN conjunct1]
  show ?case
  proof (cases "ret = PTLS_ERROR_HANDSHAKE_IN_PROGRESS")
    case False
    with "1.prems"(1) hs
    have fin: "hs_finish ret wbuf1 pin len1 rret w1 = ((0, wbuf', buf', len'), w')"
      by (subst (asm) hs_loop.simps) simp
    then have ret: "ret = 0" and w': "w' = w1"
      by (auto simp: hs_finish_def Let_def split: if_splits)
    have fr: "final_read (take (nat rret) pin) f (new_events w w') = take (nat rret) pin"
      and fc: "final_consumed (new_events w w') = len1"
      by (simp_all add: w' ev1 final_read_def final_consumed_def)
    have "leftover (take (nat rret) pin) len1 buf' len'" if "len1 \<le> length (take (nat rret) pin)"
      using hs_finish_leftover[OF fin[unfolded ret] "1.prems"(3,4)] that "1.prems"(4) by simp
    then show ?thesis
      unfolding fr fc by (simp add: w' ev1)
  next
    case True
    with "1.prems"(1) hs obtain wa w2 where
      wa: "write_all f (base wbuf1) (off wbuf1) w1 = Some (wa, w2)"
      by (subst (asm) hs_loop.simps) (auto split: option.splits)
    have wz: "wa = 0"
      using "1.prems"(1) hs True wa by (subst (asm) hs_loop.simps) (auto split: if_splits)
    with "1.prems"(1) hs True wa obtain rret1 pin1 w3 where
      rd: "read_while (-1) f pin bufsz w2 = Some ((rret1, pin1), w3)"
      by (subst (asm) hs_loop.simps) (auto split: option.splits)
    have pos: "\<not> rret1 \<le> 0"
      using "1.prems"(1) hs True wa wz rd by (subst (asm) hs_loop.simps) (auto split: if_splits)
    with "1.prems"(1) hs True wa wz rd
    have rec: "hs_loop f bufsz (wbuf1\<lparr>off := 0\<rparr>) pin1 (to_size_t rret1) rret1 w3 =
                 Some ((0, wbuf', buf', len'), w')"
      by (subst (asm) hs_loop.simps) simp
    from read_while_result[OF rd "1.prems"(2)]
    have len1: "length pin1 = length pin" and r1: "rret1 \<le> int bufsz"
      and rds: "reads f (new_events w2 w3) \<noteq> []"
        "last (reads f (new_events w2 w3)) = take (nat rret1) pin1"
      and ron: "\<forall>e \<in> set (new_events w2 w3). read_on f e"
      by simp_all
    have nz: "\<not> wa \<noteq> 0" using wz by simp
    have pre: "bufsz \<le> length pin1" "0 \<le> rret1" "nat rret1 \<le> length pin1"
      using "1.prems"(2) len1 r1 pos by simp_all
    note IH = "1.IH"[OF hs refl refl refl True wa refl nz rd refl refl pos rec pre]
    have a2: "advances w1 w2" by (rule write_all_advances[OF wa])
    have a3: "advances w2 w3" by (rule read_while_advances[OF rd])
    have a4: "advances w3 w'" by (rule hs_loop_advances[OF rec])
    have split: "new_events w w' =
        (new_events w w1 @ new_events w1 w2) @ new_events w2 w3 @ new_events w3 w'"
      using a1 a2 a3 a4
      by (simp add: new_events_trans[OF a1 advances_trans[OF a2 advances_trans[OF a3 a4]]]
                    new_events_trans[OF a2 advances_trans[OF a3 a4]] new_events_trans[OF a3 a4])
    note wn = writes_no_reads[OF write_all_writes[OF wa], of f]
    have r12: "reads f (new_events w w1 @ new_events w1 w2) = []"
      by (simp add: reads_append ev1 wn)
    have fr: "final_read (take (nat rret) pin) f (new_events w w') =
                final_read (take (nat rret1) pin1) f (new_events w3 w')"
      unfolding split using final_read_step[OF r12 rds(1)] rds(2) by simp
    have fc: "final_consumed (new_events w w') = final_consumed (new_events w3 w')"
      unfolding split
      using final_consumed_step[OF IH[THEN conjunct1],
              of "(new_events w w1 @ new_events w1 w2) @ new_events w2 w3"]
      by simp
    have "handshake_consumed (new_events w w') \<noteq> []"
      unfolding split by (simp add: handshake_consumed_append ev1)
    with IH show ?thesis
      unfolding fr fc by simp
  qed
qed


section \<open>The session\<close>

lemma stream_loop_advances:
  "stream_loop f wbuf rbuf w = Some w' \<Longrightarrow> advances w w'"
proof (induction f wbuf rbuf w rule: stream_loop.induct)
  case (1 f wbuf rbuf w)
  from "1.prems" obtain fl w1 where body: "stream_body f wbuf rbuf w = Some (fl, w1)"
    by (subst (asm) stream_loop.simps) (auto split: option.splits)
  note a = stream_body_advances(1)[OF body]
  show ?case
  proof (cases fl)
    case (Leave u)
    with "1.prems" body have "w' = w1"
      by (subst (asm) stream_loop.simps) simp
    with a show ?thesis by simp
  next
    case (Again st)
    obtain wbuf1 rbuf1 where st: "st = (wbuf1, rbuf1)" by (cases st)
    with "1.prems" body Again have rec: "stream_loop f wbuf1 rbuf1 w1 = Some w'"
      by (subst (asm) stream_loop.simps) simp
    from "1.IH"[OF body refl Again[unfolded st] refl rec] a show ?thesis
      by (rule advances_trans[rotated])
  qed
qed

lemma run_handshake_advances:
  "run_handshake f wbuf rbuf n w = Some (res, w') \<Longrightarrow> advances w w'"
  unfolding run_handshake_def by (rule hs_loop_advances)

lemma hc_body_advances:
  assumes "hc_body f wbuf rbuf w = Some w'"
  shows "advances w w'"
proof -
  from assms obtain hret wbuf1 rbuf1 roff w1 where
    hs: "run_handshake f wbuf rbuf 1024 w = Some ((hret, wbuf1, rbuf1, roff), w1)"
    by (auto simp: hc_body_def split: option.splits)
  note a1 = run_handshake_advances[OF hs]
  show ?thesis
  proof (cases "hret = 0")
    case False
    with assms hs have "w' = w1" by (simp add: hc_body_def)
    with a1 show ?thesis by simp
  next
    case hz: True
    with assms hs obtain wa w2 where
      wa: "write_all f (base wbuf1) (off wbuf1) w1 = Some (wa, w2)"
      by (auto simp: hc_body_def split: option.splits)
    note a2 = advances_trans[OF a1 write_all_advances[OF wa]]
    show ?thesis
    proof (cases "wa = 0")
      case False
      with assms hs hz wa have "w' = w2" by (simp add: hc_body_def)
      with a2 show ?thesis by simp
    next
      case wz: True
      with assms hs hz wa obtain dret w3 where
        dp: "decrypt_and_print rbuf1 roff w2 = Some (dret, w3)"
        by (auto simp: hc_body_def split: option.splits)
      note a3 = advances_trans[OF a2 decrypt_and_print_advances[OF dp]]
      show ?thesis
      proof (cases "dret = 0")
        case False
        with assms hs hz wa wz dp have "w' = w3" by (simp add: hc_body_def)
        with a3 show ?thesis by simp
      next
        case True
        with assms hs hz wa wz dp
        have "stream_loop f (wbuf1\<lparr>off := 0\<rparr>) rbuf1 w3 = Some w'"
          by (simp add: hc_body_def)
        from a3 stream_loop_advances[OF this] show ?thesis by (rule advances_trans)
      qed
    qed
  qed
qed

lemma advances_events:
  assumes "advances w w'"
  shows "trace w' = trace w @ new_events w w' \<and>
     (\<forall>e \<in> set (new_events w w'). \<not> lifecycle e)"
proof
  show "trace w' = trace w @ new_events w w'"
    by (rule advances_trace[OF assms])
  show "\<forall>e \<in> set (new_events w w'). \<not> lifecycle e"
    using assms unfolding advances_def new_events_def by blast
qed

lemma count_release:
  "\<forall>e \<in> set evs. \<not> lifecycle e \<Longrightarrow>
     count_list (evs @ [PtlsBufferDispose, PtlsFree]) PtlsBufferDispose = 1 \<and>
     count_list (evs @ [PtlsBufferDispose, PtlsFree]) PtlsFree = 1"
proof (induction evs)
  case Nil
  show ?case by simp
next
  case (Cons e evs)
  then have "e \<noteq> PtlsBufferDispose" "e \<noteq> PtlsFree" by auto
  with Cons show ?case by simp
qed

lemma handle_connection_events:
  assumes run: "handle_connection f name w = Some (r, w')"
  shows "\<exists>evs. new_events w w' = PtlsNew name # evs @ [PtlsBufferDispose, PtlsFree] \<and>
           (\<forall>e \<in> set evs. \<not> lifecycle e)"
proof -
  let ?b = "ptls_buffer_init (replicate 1024 0)" and ?r = "replicate 1024 (0 :: byte)"
  from run obtain wx where
    body: "hc_body f ?b ?r (ptls_new name w) = Some wx"
    and w': "w' = ptls_free (ptls_buffer_dispose wx)"
    by (auto simp: handle_connection_def split: option.splits)
  define evs where "evs = new_events (ptls_new name w) wx"
  from advances_events[OF hc_body_advances[OF body]]
  have tr: "trace wx = trace (ptls_new name w) @ evs"
    and nl: "\<forall>e \<in> set evs. \<not> lifecycle e"
    by (simp_all add: evs_def)
  have "trace wx = trace w @ PtlsNew name # evs"
    using tr by (simp add: ptls_new_def emit_def)
  then have "trace w' = trace w @ PtlsNew name # evs @ [PtlsBufferDispose, PtlsFree]"
    by (simp add: w' ptls_free_def ptls_buffer_dispose_def emit_def)
  then have "new_events w w' = PtlsNew name # evs @ [PtlsBufferDispose, PtlsFree]"
    by (simp add: new_events_def)
  with nl show ?thesis by blast
qed

lemma socket_eof_leaves:
  assumes sel: "sys_select (f + 1) [0, f] w = Some ((sret, fds), w1)" and pos: "0 < sret"
    and rdy: "f \<in> set fds"
    and first: "(if 0 \<in> set fds then stdin_branch f wbuf rbuf w1 else Some (Again (wbuf, rbuf), w1)) =
       Some (Again (wbuf1, rbuf1), w2)"
    and rd: "read_while 1 f rbuf1 1024 w2 = Some ((rret, rbuf2), w3)" and eof: "rret \<le> 0"
  shows "stream_loop f wbuf rbuf w = Some w3"
proof -
  have sb: "socket_branch f wbuf1 rbuf1 w2 = Some (Leave (), w3)"
    unfolding socket_branch_def rd using eof by simp
  have "stream_body f wbuf rbuf w = Some (Leave (), w3)"
  proof (cases "0 \<in> set fds")
    case True
    with first have "stdin_branch f wbuf rbuf w1 = Some (Again (wbuf1, rbuf1), w2)"
      by simp
    with True pos rdy sb show ?thesis
      unfolding stream_body_def sel by simp
  next
    case False
    with first have "wbuf1 = wbuf" "rbuf1 = rbuf" "w2 = w1"
      by simp_all
    with False pos rdy sb show ?thesis
      unfolding stream_body_def sel by simp
  qed
  then show ?thesis by (subst stream_loop.simps) simp
qed

text \<open>C8: a run of \<open>handle_connection\<close> that returns has created the engine first and has
  disposed of the outbound buffer and freed the engine last, once each, whatever happened
  in between. In a turn of the loop in which the socket is ready and the branch of
  standard input, if taken, has not left, a \<open>read\<close> of the socket that does not return a
  positive length ends the loop at once: the next event is the release.\<close>

theorem release_once:
  "(handle_connection f name w = Some (r, w') \<longrightarrow>
      (\<exists>evs. new_events w w' = PtlsNew name # evs @ [PtlsBufferDispose, PtlsFree] \<and>
         (\<forall>e \<in> set evs. \<not> lifecycle e)) \<and>
      count_list (new_events w w') PtlsBufferDispose = 1 \<and>
      count_list (new_events w w') PtlsFree = 1) \<and>
   (sys_select (f + 1) [0, f] w = Some ((sret, fds), w1) \<and> 0 < sret \<and> f \<in> set fds \<and>
    (if 0 \<in> set fds then stdin_branch f wbuf rbuf w1 else Some (Again (wbuf, rbuf), w1)) =
      Some (Again (wbuf1, rbuf1), w2) \<and>
    read_while 1 f rbuf1 1024 w2 = Some ((rret, rbuf2), w3) \<and> rret \<le> 0 \<longrightarrow>
      stream_loop f wbuf rbuf w = Some w3)"
proof (rule conjI; rule impI)
  assume run: "handle_connection f name w = Some (r, w')"
  from handle_connection_events[OF run] obtain evs where
    ev: "new_events w w' = PtlsNew name # evs @ [PtlsBufferDispose, PtlsFree]"
    and nl: "\<forall>e \<in> set evs. \<not> lifecycle e"
    by blast
  from count_release[OF nl]
  have "count_list (new_events w w') PtlsBufferDispose = 1"
    and "count_list (new_events w w') PtlsFree = 1"
    unfolding ev by simp_all
  with ev nl show "(\<exists>evs. new_events w w' = PtlsNew name # evs @ [PtlsBufferDispose, PtlsFree] \<and>
         (\<forall>e \<in> set evs. \<not> lifecycle e)) \<and>
      count_list (new_events w w') PtlsBufferDispose = 1 \<and>
      count_list (new_events w w') PtlsFree = 1"
    by blast
next
  assume "sys_select (f + 1) [0, f] w = Some ((sret, fds), w1) \<and> 0 < sret \<and> f \<in> set fds \<and>
    (if 0 \<in> set fds then stdin_branch f wbuf rbuf w1 else Some (Again (wbuf, rbuf), w1)) =
      Some (Again (wbuf1, rbuf1), w2) \<and>
    read_while 1 f rbuf1 1024 w2 = Some ((rret, rbuf2), w3) \<and> rret \<le> 0"
  then show "stream_loop f wbuf rbuf w = Some w3"
    by (elim conjE) (rule socket_eof_leaves)
qed


text \<open>A session in which the handshake succeeds at once and the peer then closes the
  connection, and the same from the first turn of the loop.\<close>

definition peer_closes :: world where
  "peer_closes =
     idle\<lparr>handshake_script := [reply 0 0 []], select_script := [Ready [3]],
          rd_script := (\<lambda>_. [])(3 := [Deliver []])\<rparr>"

definition peer_closed :: world where
  "peer_closed = idle\<lparr>select_script := [Ready [3]], rd_script := (\<lambda>_. [])(3 := [Deliver []])\<rparr>"

lemma peer_closes_run:
  "outcome peer_closes (handle_connection 3 None peer_closes) =
     Some (0, [PtlsNew None, PtlsHandshake [] 0 0, SysSelect 4 1 [3], SysRead 3 [] 0 0,
               PtlsBufferDispose, PtlsFree])"
  by code_simp

theorem release_once_witness:
  "(\<exists>w'. handle_connection 3 None peer_closes = Some (0, w') \<and>
      new_events peer_closes w' =
        [PtlsNew None, PtlsHandshake [] 0 0, SysSelect 4 1 [3], SysRead 3 [] 0 0,
         PtlsBufferDispose, PtlsFree] \<and>
      count_list (new_events peer_closes w') PtlsBufferDispose = 1 \<and>
      count_list (new_events peer_closes w') PtlsFree = 1) \<and>
   (\<exists>w'. stream_loop 3 (ptls_buffer_init (replicate 1024 0)) (replicate 1024 0) peer_closed =
            Some w' \<and>
      trace w' = [SysSelect 4 1 [3], SysRead 3 [] 0 0])"
proof -
  let ?b = "ptls_buffer_init (replicate 1024 0)" and ?r = "replicate 1024 (0 :: byte)"
  from peer_closes_run obtain w' where
    run: "handle_connection 3 None peer_closes = Some (0, w')"
    and ev: "new_events peer_closes w' =
        [PtlsNew None, PtlsHandshake [] 0 0, SysSelect 4 1 [3], SysRead 3 [] 0 0,
         PtlsBufferDispose, PtlsFree]"
    by (blast dest: outcome_SomeD)
  define w1 where "w1 = emit (SysSelect 4 1 [3]) (peer_closed\<lparr>select_script := []\<rparr>)"
  define w3 where "w3 = emit (SysRead 3 [] 0 0) (w1\<lparr>rd_script := (rd_script w1)(3 := [])\<rparr>)"
  have sel: "sys_select (3 + 1) [0, 3] peer_closed = Some ((1, [3]), w1)"
    by (simp add: sys_select_def peer_closed_def idle_def w1_def Let_def)
  have "sys_read 3 ?r 1024 w1 = Some ((0, ?r), w3)"
    by (simp add: sys_read_def w1_def w3_def peer_closed_def idle_def emit_def Let_def)
  then have rd: "read_while 1 3 ?r 1024 w1 = Some ((0, ?r), w3)"
    by (subst read_while.simps) simp
  have first: "(if 0 \<in> set [3 :: int] then stdin_branch 3 ?b ?r w1 else Some (Again (?b, ?r), w1)) =
      Some (Again (?b, ?r), w1)"
    by simp
  from release_once[where f = 3 and name = None and w = peer_closes and r = 0 and w' = w'] run
  have c: "count_list (new_events peer_closes w') PtlsBufferDispose = 1"
    "count_list (new_events peer_closes w') PtlsFree = 1"
    by simp_all
  from release_once[where f = 3 and w = peer_closed and sret = 1 and fds = "[3]" and ?w1.0 = w1
         and wbuf = ?b and rbuf = ?r and ?wbuf1.0 = ?b and ?rbuf1.0 = ?r and ?w2.0 = w1
         and rret = 0 and ?rbuf2.0 = ?r and ?w3.0 = w3] sel rd first
  have "stream_loop 3 ?b ?r peer_closed = Some w3"
    by simp
  moreover have "trace w3 = [SysSelect 4 1 [3], SysRead 3 [] 0 0]"
    by (simp add: w3_def w1_def emit_def peer_closed_def idle_def)
  ultimately show ?thesis using run ev c by blast
qed

section \<open>One turn of the streaming loop\<close>

text \<open>The events of \<open>decrypt_and_print\<close>: unsealing calls, writes to standard output and
  the report of an error of the engine.\<close>

fun pump_event :: "event \<Rightarrow> bool" where
  "pump_event (PtlsReceive i r c out) = True"
| "pump_event (SysWrite g bs r e) = (g = 1)"
| "pump_event (Stderr s n) = True"
| "pump_event ev = False"

lemma write_on_pump: "write_on 1 e \<Longrightarrow> pump_event e"
  by (cases e) auto

lemma new_events_emit: "new_events w (emit e w) = [e]"
  by (simp add: new_events_def emit_def)

lemma dp_body_events:
  assumes "dp_body b input inlen w = Some (fl, w')"
  shows "\<forall>e \<in> set (new_events w w'). pump_event e"
proof -
  from assms obtain ret b1 c w1 where rc: "ptls_receive b input inlen w = Some ((ret, b1, c), w1)"
    by (auto simp: dp_body_def split: option.splits)
  then obtain out where ev1: "new_events w w1 = [PtlsReceive (take inlen input) ret c out]"
    by (auto simp: ptls_receive_def emit_def new_events_def split: list.splits)
  have a1: "advances w w1" using ptls_receive_advances[OF rc] by simp
  show ?thesis
  proof (cases "ret = 0")
    case False
    with assms rc have "w' = emit (Stderr ''ptls_receive'' ret) w1"
      by (auto simp: dp_body_def)
    moreover have "new_events w (emit (Stderr ''ptls_receive'' ret) w1) =
        new_events w w1 @ [Stderr ''ptls_receive'' ret]"
      using new_events_trans[OF a1 emit_advances[of "Stderr ''ptls_receive'' ret" w1]]
      by (simp add: new_events_emit)
    ultimately show ?thesis using ev1 by simp
  next
    case True
    show ?thesis
    proof (cases "off b1 = 0")
      case z: True
      with assms rc True have "w' = w1" by (auto simp: dp_body_def Let_def)
      with ev1 show ?thesis by simp
    next
      case nz: False
      with assms rc True obtain wa where wa: "write_all 1 (base b1) (off b1) w1 = Some (wa, w')"
        by (auto simp: dp_body_def Let_def split: option.splits if_splits)
      have "new_events w w' = new_events w w1 @ new_events w1 w'"
        using a1 write_all_advances[OF wa] by (rule new_events_trans)
      with ev1 write_all_writes[OF wa] show ?thesis
        by (auto intro: write_on_pump)
    qed
  qed
qed

lemma dp_loop_events:
  "dp_loop b input inlen w = Some (r, w') \<Longrightarrow> \<forall>e \<in> set (new_events w w'). pump_event e"
proof (induction b input inlen w rule: dp_loop.induct)
  case (1 b input inlen w)
  show ?case
  proof (cases "inlen = 0")
    case True
    with "1.prems" have "w' = w"
      by (subst (asm) dp_loop.simps) simp
    then show ?thesis by (simp add: new_events_def)
  next
    case False
    with "1.prems" obtain fl w1 where body: "dp_body b input inlen w = Some (fl, w1)"
      by (subst (asm) dp_loop.simps) (auto split: option.splits)
    note e1 = dp_body_events[OF body]
    show ?thesis
    proof (cases fl)
      case (Leave x)
      with "1.prems" False body have "w' = w1"
        by (subst (asm) dp_loop.simps) simp
      with e1 show ?thesis by simp
    next
      case (Again st)
      obtain b1 i1 n1 where st: "st = (b1, i1, n1)" by (cases st)
      with "1.prems" False body Again have rec: "dp_loop b1 i1 n1 w1 = Some (r, w')"
        by (subst (asm) dp_loop.simps) simp
      have "new_events w w' = new_events w w1 @ new_events w1 w'"
        using dp_body_advances(1)[OF body] dp_loop_advances[OF rec] by (rule new_events_trans)
      with "1.IH"[OF False body refl Again[unfolded st] refl refl rec] e1 show ?thesis
        by auto
    qed
  qed
qed

lemma read_while_events:
  "read_while v f buf cap w = Some (res, w') \<Longrightarrow>
     new_events w w' \<noteq> [] \<and> (\<forall>e \<in> set (new_events w w'). read_on f e)"
proof (induction v f buf cap w rule: read_while.induct)
  case (1 v f buf cap w)
  from "1.prems" obtain rret buf1 w1 where sr: "sys_read f buf cap w = Some ((rret, buf1), w1)"
    by (subst (asm) read_while.simps) (auto split: option.splits)
  then obtain bs r e where ev1: "new_events w w1 = [SysRead f bs r e]"
    by (auto simp: sys_read_def emit_def Let_def new_events_def split: list.splits rresult.splits)
  show ?case
  proof (cases "rret = v \<and> errno w1 = EINTR")
    case True
    with "1.prems" sr have rec: "read_while v f buf1 cap w1 = Some (res, w')"
      by (subst (asm) read_while.simps) simp
    have "new_events w w' = new_events w w1 @ new_events w1 w'"
      using sys_read_advances[OF sr] read_while_advances[OF rec] by (simp add: new_events_trans)
    with "1.IH"[OF sr refl refl True rec] ev1 show ?thesis by simp
  next
    case False
    with "1.prems" sr have "w' = w1"
      by (subst (asm) read_while.simps) auto
    with ev1 show ?thesis by simp
  qed
qed

lemma stdin_branch_Again:
  assumes "stdin_branch f wbuf rbuf w = Some (Again s, w')"
  shows "\<exists>rds inp n wrs. new_events w w' = rds @ PtlsSend inp n 0 # wrs \<and> rds \<noteq> [] \<and>
           (\<forall>e \<in> set rds. read_on 0 e) \<and> (\<forall>e \<in> set wrs. write_on f e)"
proof -
  from assms obtain rret rbuf1 w1 where rd: "read_while 1 0 rbuf 1024 w = Some ((rret, rbuf1), w1)"
    by (auto simp: stdin_branch_def split: option.splits)
  with assms obtain ret wbuf1 w2 where
    sn: "ptls_send wbuf rbuf1 (to_size_t rret) w1 = Some ((ret, wbuf1), w2)"
    by (auto simp: stdin_branch_def split: option.splits)
  with assms rd have ret: "ret = 0"
    by (auto simp: stdin_branch_def split: option.splits if_splits)
  with assms rd sn obtain wa where wa: "write_all f (base wbuf1) (off wbuf1) w2 = Some (wa, w')"
    by (auto simp: stdin_branch_def split: option.splits if_splits)
  from sn ret obtain inp n where ev2: "new_events w1 w2 = [PtlsSend inp n 0]"
    by (auto simp: ptls_send_def emit_def new_events_def split: list.splits)
  note a1 = read_while_advances[OF rd] and a2 = ptls_send_advances[OF sn]
    and a3 = write_all_advances[OF wa]
  have "new_events w w' = new_events w w1 @ new_events w1 w2 @ new_events w2 w'"
    by (simp add: new_events_trans[OF a1 advances_trans[OF a2 a3]] new_events_trans[OF a2 a3])
  with ev2 read_while_events[OF rd] write_all_writes[OF wa] show ?thesis
    by auto
qed

lemma socket_branch_events:
  assumes "socket_branch f wbuf rbuf w = Some (fl, w')"
  shows "\<exists>rds rest. new_events w w' = rds @ rest \<and> rds \<noteq> [] \<and>
           (\<forall>e \<in> set rds. read_on f e) \<and> (\<forall>e \<in> set rest. pump_event e)"
proof -
  from assms obtain rret rbuf1 w1 where rd: "read_while 1 f rbuf 1024 w = Some ((rret, rbuf1), w1)"
    by (auto simp: socket_branch_def split: option.splits)
  note e1 = read_while_events[OF rd]
  show ?thesis
  proof (cases "rret \<le> 0")
    case True
    with assms rd have "w' = w1" by (simp add: socket_branch_def)
    with e1 have "new_events w w' = new_events w w1 @ []" "new_events w w1 \<noteq> []"
      "\<forall>e \<in> set (new_events w w1). read_on f e" "\<forall>e \<in> set ([] :: event list). pump_event e"
      by simp_all
    then show ?thesis by blast
  next
    case False
    with assms rd obtain r where dp: "decrypt_and_print rbuf1 (to_size_t rret) w1 = Some (r, w')"
      by (auto simp: socket_branch_def split: option.splits if_splits)
    have "new_events w w' = new_events w w1 @ new_events w1 w'"
      using read_while_advances[OF rd] decrypt_and_print_advances[OF dp] by (rule new_events_trans)
    moreover have "\<forall>e \<in> set (new_events w1 w'). pump_event e"
      using dp unfolding decrypt_and_print_def by (rule dp_loop_events)
    ultimately show ?thesis using e1 by blast
  qed
qed


lemma sys_select_events:
  "sys_select n rfds w = Some ((sret, fds), w1) \<Longrightarrow> new_events w w1 = [SysSelect n sret fds]"
  by (auto simp: sys_select_def emit_def Let_def new_events_def split: list.splits sresult.splits)

section \<open>From the handshake to the streaming loop\<close>

lemma buffer_push_fits:
  "off b \<le> length (base b) \<Longrightarrow> off (buffer_push b out) \<le> length (base (buffer_push b out))"
  by (simp add: buffer_push_def)

lemma hs_loop_buffer:
  "hs_loop f bufsz wbuf pin plen rret w = Some ((r, wbuf', buf', len'), w') \<Longrightarrow>
   off wbuf \<le> length (base wbuf) \<Longrightarrow> off wbuf' \<le> length (base wbuf')"
proof (induction f bufsz wbuf pin plen rret w rule: hs_loop.induct)
  case (1 f bufsz wbuf pin plen rret w)
  from "1.prems"(1) obtain ret wbuf1 len1 w1 where
    hs: "ptls_handshake wbuf pin plen w = Some ((ret, wbuf1, len1), w1)"
    by (subst (asm) hs_loop.simps) (auto split: option.splits)
  have fits: "off wbuf1 \<le> length (base wbuf1)"
    using hs "1.prems"(2) by (auto simp: ptls_handshake_def buffer_push_fits split: list.splits)
  show ?case
  proof (cases "ret = PTLS_ERROR_HANDSHAKE_IN_PROGRESS")
    case False
    with "1.prems"(1) hs have "hs_finish ret wbuf1 pin len1 rret w1 = ((r, wbuf', buf', len'), w')"
      by (subst (asm) hs_loop.simps) simp
    then have "wbuf' = wbuf1"
      by (auto simp: hs_finish_def Let_def split: if_splits)
    with fits show ?thesis by simp
  next
    case True
    with "1.prems"(1) hs obtain wa w2 where
      wa: "write_all f (base wbuf1) (off wbuf1) w1 = Some (wa, w2)"
      by (subst (asm) hs_loop.simps) (auto split: option.splits)
    show ?thesis
    proof (cases "wa = 0")
      case False
      with "1.prems"(1) hs True wa have "wbuf' = wbuf1"
        by (subst (asm) hs_loop.simps) simp
      with fits show ?thesis by simp
    next
      case wz: True
      with "1.prems"(1) hs True wa obtain rret1 pin1 w3 where
        rd: "read_while (-1) f pin bufsz w2 = Some ((rret1, pin1), w3)"
        by (subst (asm) hs_loop.simps) (auto split: option.splits)
      show ?thesis
      proof (cases "rret1 \<le> 0")
        case True
        with "1.prems"(1) hs \<open>ret = PTLS_ERROR_HANDSHAKE_IN_PROGRESS\<close> wa wz rd
        have "wbuf' = wbuf1\<lparr>off := 0\<rparr>"
          by (subst (asm) hs_loop.simps) simp
        then show ?thesis by simp
      next
        case pos: False
        with "1.prems"(1) hs True wa wz rd
        have rec: "hs_loop f bufsz (wbuf1\<lparr>off := 0\<rparr>) pin1 (to_size_t rret1) rret1 w3 =
                     Some ((r, wbuf', buf', len'), w')"
          by (subst (asm) hs_loop.simps) simp
        have nz: "\<not> wa \<noteq> 0" using wz by simp
        show ?thesis
          by (rule "1.IH"[OF hs refl refl refl True wa refl nz rd refl refl pos rec]) simp
      qed
    qed
  qed
qed

lemma dp_body_first:
  assumes "dp_body b input inlen w = Some (fl, w')"
  shows "\<exists>rt c out tl. new_events w w' = PtlsReceive (take inlen input) rt c out # tl"
proof -
  from assms obtain ret b1 c w1 where rc: "ptls_receive b input inlen w = Some ((ret, b1, c), w1)"
    by (auto simp: dp_body_def split: option.splits)
  then obtain out where ev1: "new_events w w1 = [PtlsReceive (take inlen input) ret c out]"
    by (auto simp: ptls_receive_def emit_def new_events_def split: list.splits)
  have a1: "advances w w1" using ptls_receive_advances[OF rc] by simp
  have "advances w1 w'"
    using assms rc
    by (auto simp: dp_body_def Let_def emit_advances advances_refl
             split: if_splits option.splits dest: write_all_advances)
  from new_events_trans[OF a1 this] ev1 show ?thesis by simp
qed

lemma dp_loop_first:
  assumes "dp_loop b input inlen w = Some (r, w')" and "inlen \<noteq> 0"
  shows "\<exists>rt c out tl. new_events w w' = PtlsReceive (take inlen input) rt c out # tl"
proof -
  from assms obtain fl w1 where body: "dp_body b input inlen w = Some (fl, w1)"
    by (subst (asm) dp_loop.simps) (auto split: option.splits)
  from dp_body_first[OF body] obtain rt c out tl where
    ev1: "new_events w w1 = PtlsReceive (take inlen input) rt c out # tl"
    by blast
  have "advances w1 w'"
  proof (cases fl)
    case (Leave x)
    with assms body have "w' = w1"
      by (subst (asm) dp_loop.simps) simp
    then show ?thesis by (simp add: advances_refl)
  next
    case (Again st)
    obtain b1 i1 n1 where "st = (b1, i1, n1)" by (cases st)
    with assms body Again have "dp_loop b1 i1 n1 w1 = Some (r, w')"
      by (subst (asm) dp_loop.simps) simp
    then show ?thesis by (rule dp_loop_advances)
  qed
  from new_events_trans[OF dp_body_advances(1)[OF body] this] ev1 show ?thesis by simp
qed

lemma stream_body_first:
  assumes "stream_body f wbuf rbuf w = Some (r, w')"
  shows "\<exists>n sret fds tl. new_events w w' = SysSelect n sret fds # tl"
proof -
  from assms obtain sret fds w1 where sl: "sys_select (f + 1) [0, f] w = Some ((sret, fds), w1)"
    by (auto simp: stream_body_def split: option.splits)
  have "advances w1 w'"
  proof (cases "sret \<le> 0")
    case True
    with assms sl show ?thesis
      by (simp add: stream_body_def advances_refl)
  next
    case False
    define first where
      "first = (if 0 \<in> set fds then stdin_branch f wbuf rbuf w1
                else Some (Again (wbuf, rbuf), w1))"
    from assms sl False obtain fl w2 where fst: "first = Some (fl, w2)"
      by (auto simp: stream_body_def first_def split: option.splits if_splits)
    have a12: "advances w1 w2"
      using fst by (auto simp: first_def advances_refl split: if_splits dest: stdin_branch_advances)
    have "advances w2 w'"
      using assms sl False fst
      by (auto simp: stream_body_def first_def[symmetric] advances_refl
               split: flow.splits prod.splits if_splits dest: socket_branch_advances)
    with a12 show ?thesis by (rule advances_trans)
  qed
  from new_events_trans[OF sys_select_advances[OF sl, THEN conjunct1] this]
       sys_select_events[OF sl]
  show ?thesis by simp
qed

lemma stream_loop_first:
  assumes "stream_loop f wbuf rbuf w = Some w'"
  shows "\<exists>n sret fds tl. new_events w w' = SysSelect n sret fds # tl"
proof -
  from assms obtain fl w1 where body: "stream_body f wbuf rbuf w = Some (fl, w1)"
    by (subst (asm) stream_loop.simps) (auto split: option.splits)
  from stream_body_first[OF body] obtain n sret fds tl where
    ev1: "new_events w w1 = SysSelect n sret fds # tl"
    by blast
  have "advances w1 w'"
  proof (cases fl)
    case (Leave u)
    with assms body have "w' = w1"
      by (subst (asm) stream_loop.simps) simp
    then show ?thesis by (simp add: advances_refl)
  next
    case (Again st)
    obtain wbuf1 rbuf1 where "st = (wbuf1, rbuf1)" by (cases st)
    with assms body Again have "stream_loop f wbuf1 rbuf1 w1 = Some w'"
      by (subst (asm) stream_loop.simps) simp
    then show ?thesis by (rule stream_loop_advances)
  qed
  from new_events_trans[OF stream_body_advances(1)[OF body] this] ev1 show ?thesis by simp
qed


text \<open>What C6 asks of the events between the success of the handshake and \<open>Exit\<close>, when
  \<open>pending\<close> are the outbound bytes left in the buffer and \<open>carried\<close> the \<open>roff\<close> bytes
  carried out of the handshake: first writes to the socket, then events of the pump, then
  the loop, which starts with a \<open>select\<close>; no \<open>read\<close> comes before that \<open>select\<close>. When
  a write is given up on, nothing follows. Otherwise the writes transfer exactly the
  pending bytes and, when \<open>roff\<close> is positive, the first event of the pump is the
  unsealing call on exactly the carried bytes.\<close>

definition transition_trace :: "fd \<Rightarrow> byte list \<Rightarrow> nat \<Rightarrow> byte list \<Rightarrow> event list \<Rightarrow> bool" where
  "transition_trace f pending roff carried evs \<longleftrightarrow>
     (\<exists>flush pump stream.
        evs = flush @ pump @ stream \<and>
        (\<forall>e \<in> set flush. write_on f e) \<and> (\<forall>e \<in> set pump. pump_event e) \<and>
        (stream = [] \<or> (\<exists>n r fds tl. stream = SysSelect n r fds # tl)) \<and>
        ((\<exists>e \<in> set flush. fatal_write e) \<longrightarrow> pump = [] \<and> stream = []) \<and>
        ((\<forall>e \<in> set flush. \<not> fatal_write e) \<longrightarrow>
           written f flush = pending \<and>
           (0 < roff \<longrightarrow> (\<exists>rt c out tl. pump = PtlsReceive carried rt c out # tl))))"

lemma transition_traceI:
  assumes "evs = flush @ pump @ stream"
    "\<forall>e \<in> set flush. write_on f e" "\<forall>e \<in> set pump. pump_event e"
    "stream = [] \<or> (\<exists>n r fds tl. stream = SysSelect n r fds # tl)"
    "(\<exists>e \<in> set flush. fatal_write e) \<longrightarrow> pump = [] \<and> stream = []"
    "(\<forall>e \<in> set flush. \<not> fatal_write e) \<longrightarrow>
           written f flush = pending \<and>
           (0 < roff \<longrightarrow> (\<exists>rt c out tl. pump = PtlsReceive carried rt c out # tl))"
  shows "transition_trace f pending roff carried evs"
  unfolding transition_trace_def using assms by blast

lemma hc_body_transition:
  assumes body: "hc_body f wbuf rbuf w = Some w'"
    and hs: "run_handshake f wbuf rbuf 1024 w = Some ((0, wbuf1, rbuf1, roff), w1)"
    and fits: "off wbuf \<le> length (base wbuf)"
  shows "transition_trace f (take (off wbuf1) (base wbuf1)) roff (take roff rbuf1)
           (new_events w1 w')"
proof -
  have fits1: "off wbuf1 \<le> length (base wbuf1)"
    using hs_loop_buffer[OF hs[unfolded run_handshake_def] fits] .
  from body hs obtain wa w2 where
    wa: "write_all f (base wbuf1) (off wbuf1) w1 = Some (wa, w2)"
    by (auto simp: hc_body_def split: option.splits)
  note post = write_all_events[OF wa fits1, unfolded write_all_post_def]
  note a2 = write_all_advances[OF wa]
  from post have on: "\<forall>e \<in> set (new_events w1 w2). write_on f e" by blast
  show ?thesis
  proof (cases "wa = 0")
    case False
    with body hs wa have w': "w' = w2" by (simp add: hc_body_def)
    from False post have "new_events w1 w2 \<noteq> []" "fatal_write (last (new_events w1 w2))"
      by auto
    then have "\<exists>e \<in> set (new_events w1 w2). fatal_write e"
      using last_in_set by blast
    then show ?thesis
      unfolding w' using on
      by (intro transition_traceI[where flush = "new_events w1 w2" and pump = "[]" and stream = "[]"])
         auto
  next
    case wz: True
    with post have nofatal: "\<forall>e \<in> set (new_events w1 w2). \<not> fatal_write e"
      and wr: "written f (new_events w1 w2) = take (off wbuf1) (base wbuf1)"
      by auto
    from body hs wa wz obtain dret w3 where
      dp: "decrypt_and_print rbuf1 roff w2 = Some (dret, w3)"
      by (auto simp: hc_body_def split: option.splits)
    note a3 = decrypt_and_print_advances[OF dp]
    have pe: "\<forall>e \<in> set (new_events w2 w3). pump_event e"
      using dp unfolding decrypt_and_print_def by (rule dp_loop_events)
    have first: "\<exists>rt c out tl. new_events w2 w3 = PtlsReceive (take roff rbuf1) rt c out # tl"
      if "0 < roff"
      using dp_loop_first[OF dp[unfolded decrypt_and_print_def]] that by simp
    show ?thesis
    proof (cases "dret = 0")
      case False
      with body hs wa wz dp have w': "w' = w3" by (simp add: hc_body_def)
      have "new_events w1 w3 = new_events w1 w2 @ new_events w2 w3 @ []"
        using new_events_trans[OF a2 a3] by simp
      then show ?thesis
        unfolding w' using on pe nofatal wr first
        by (intro transition_traceI[where flush = "new_events w1 w2"
                    and pump = "new_events w2 w3" and stream = "[]"]) auto
    next
      case True
      with body hs wa wz dp
      have sl: "stream_loop f (wbuf1\<lparr>off := 0\<rparr>) rbuf1 w3 = Some w'"
        by (simp add: hc_body_def)
      note a4 = stream_loop_advances[OF sl]
      have "new_events w1 w' = new_events w1 w2 @ new_events w2 w3 @ new_events w3 w'"
        by (simp add: new_events_trans[OF a2 advances_trans[OF a3 a4]] new_events_trans[OF a3 a4])
      then show ?thesis
        using on pe nofatal wr first stream_loop_first[OF sl]
        by (intro transition_traceI[where flush = "new_events w1 w2"
                    and pump = "new_events w2 w3" and stream = "new_events w3 w'"]) auto
    qed
  qed
qed

text \<open>C6: after a handshake that succeeded, what \<open>handle_connection\<close> does up to \<open>Exit\<close>
  is: the flush of the outbound bytes that the handshake left pending, then the pump on
  the bytes carried out of the handshake when there are any, then the loop. The loop is
  entered with the outbound buffer reset.\<close>

theorem handshake_to_streaming:
  "hc_body f wbuf rbuf w = Some w' \<and>
   run_handshake f wbuf rbuf 1024 w = Some ((0, wbuf1, rbuf1, roff), w1) \<and>
   off wbuf \<le> length (base wbuf) \<longrightarrow>
     transition_trace f (take (off wbuf1) (base wbuf1)) roff (take roff rbuf1)
       (new_events w1 w') \<and>
     (\<forall>w2 w3. write_all f (base wbuf1) (off wbuf1) w1 = Some (0, w2) \<and>
               decrypt_and_print rbuf1 roff w2 = Some (0, w3) \<longrightarrow>
               stream_loop f (wbuf1\<lparr>off := 0\<rparr>) rbuf1 w3 = Some w')"
proof (rule impI, elim conjE, rule conjI)
  assume body: "hc_body f wbuf rbuf w = Some w'"
    and hs: "run_handshake f wbuf rbuf 1024 w = Some ((0, wbuf1, rbuf1, roff), w1)"
    and fits: "off wbuf \<le> length (base wbuf)"
  show "transition_trace f (take (off wbuf1) (base wbuf1)) roff (take roff rbuf1)
          (new_events w1 w')"
    by (rule hc_body_transition[OF body hs fits])
  show "\<forall>w2 w3. write_all f (base wbuf1) (off wbuf1) w1 = Some (0, w2) \<and>
               decrypt_and_print rbuf1 roff w2 = Some (0, w3) \<longrightarrow>
               stream_loop f (wbuf1\<lparr>off := 0\<rparr>) rbuf1 w3 = Some w'"
    using body hs by (auto simp: hc_body_def)
qed


text \<open>A handshake whose last step leaves one outbound byte pending and two of the five
  bytes read unconsumed; the engine then unseals the two bytes into one, and the peer
  closes.\<close>

definition late_flight :: world where
  "late_flight =
     idle\<lparr>handshake_script := [reply PTLS_ERROR_HANDSHAKE_IN_PROGRESS 0 [1, 2], reply 0 3 [9]],
          wr_script := (\<lambda>_. [])(3 := [Accept 10, Accept 10], 1 := [Accept 5]),
          rd_script := (\<lambda>_. [])(3 := [Deliver [21, 22, 23, 24, 25], Deliver []]),
          receive_script := [reply 0 2 [72]],
          select_script := [Ready [3]]\<rparr>"

text \<open>What \<open>run_handshake\<close> hands back: the return value, the pending outbound bytes, the
  pending length and the pending inbound bytes, and the trace.\<close>

definition handshake_view ::
  "((int \<times> ptls_buffer \<times> byte list \<times> nat) \<times> world) option \<Rightarrow>
     (int \<times> byte list \<times> nat \<times> byte list \<times> event list) option" where
  "handshake_view res =
     map_option (\<lambda>((r, wb, b, n), w'). (r, take (off wb) (base wb), n, take n b, trace w')) res"

lemma handshake_view_SomeD:
  "handshake_view res = Some (r, pending, n, bs, evs) \<Longrightarrow>
     \<exists>wb b w'. res = Some ((r, wb, b, n), w') \<and> take (off wb) (base wb) = pending \<and>
       take n b = bs \<and> trace w' = evs"
  by (auto simp: handshake_view_def)

lemma late_flight_handshake:
  "handshake_view
     (run_handshake 3 (ptls_buffer_init (replicate 1024 0)) (replicate 1024 0) 1024 late_flight) =
     Some (0, [9], 2, [24, 25],
           [PtlsHandshake [] PTLS_ERROR_HANDSHAKE_IN_PROGRESS 0, SysWrite 3 [1, 2] 2 0,
            SysRead 3 [21, 22, 23, 24, 25] 5 0, PtlsHandshake [21, 22, 23, 24, 25] 0 3])"
  by code_simp

lemma late_flight_session:
  "map_option trace
     (hc_body 3 (ptls_buffer_init (replicate 1024 0)) (replicate 1024 0) late_flight) =
     Some [PtlsHandshake [] PTLS_ERROR_HANDSHAKE_IN_PROGRESS 0, SysWrite 3 [1, 2] 2 0,
           SysRead 3 [21, 22, 23, 24, 25] 5 0, PtlsHandshake [21, 22, 23, 24, 25] 0 3,
           SysWrite 3 [9] 1 0, PtlsReceive [24, 25] 0 2 [72], SysWrite 1 [72] 1 0,
           SysSelect 4 1 [3], SysRead 3 [] 0 0]"
  by code_simp

theorem handshake_to_streaming_witness:
  "\<exists>wbuf1 rbuf1 w1 w'.
     run_handshake 3 (ptls_buffer_init (replicate 1024 0)) (replicate 1024 0) 1024 late_flight =
       Some ((0, wbuf1, rbuf1, 2), w1) \<and>
     hc_body 3 (ptls_buffer_init (replicate 1024 0)) (replicate 1024 0) late_flight = Some w' \<and>
     take (off wbuf1) (base wbuf1) = [9] \<and> take 2 rbuf1 = [24, 25] \<and>
     new_events w1 w' =
       [SysWrite 3 [9] 1 0, PtlsReceive [24, 25] 0 2 [72], SysWrite 1 [72] 1 0,
        SysSelect 4 1 [3], SysRead 3 [] 0 0] \<and>
     transition_trace 3 [9] 2 [24, 25] (new_events w1 w')"
proof -
  let ?b = "ptls_buffer_init (replicate 1024 0)" and ?r = "replicate 1024 (0 :: byte)"
  from handshake_view_SomeD[OF late_flight_handshake] obtain wbuf1 rbuf1 w1 where
    hs: "run_handshake 3 ?b ?r 1024 late_flight = Some ((0, wbuf1, rbuf1, 2), w1)"
    and pend: "take (off wbuf1) (base wbuf1) = [9]" and left: "take 2 rbuf1 = [24, 25]"
    and t1: "trace w1 =
           [PtlsHandshake [] PTLS_ERROR_HANDSHAKE_IN_PROGRESS 0, SysWrite 3 [1, 2] 2 0,
            SysRead 3 [21, 22, 23, 24, 25] 5 0, PtlsHandshake [21, 22, 23, 24, 25] 0 3]"
    by blast
  from late_flight_session obtain w' where
    body: "hc_body 3 ?b ?r late_flight = Some w'"
    and t': "trace w' =
          [PtlsHandshake [] PTLS_ERROR_HANDSHAKE_IN_PROGRESS 0, SysWrite 3 [1, 2] 2 0,
           SysRead 3 [21, 22, 23, 24, 25] 5 0, PtlsHandshake [21, 22, 23, 24, 25] 0 3,
           SysWrite 3 [9] 1 0, PtlsReceive [24, 25] 0 2 [72], SysWrite 1 [72] 1 0,
           SysSelect 4 1 [3], SysRead 3 [] 0 0]"
    by auto
  have fits: "off ?b \<le> length (base ?b)"
    by (simp add: ptls_buffer_init_def)
  have ev: "new_events w1 w' =
       [SysWrite 3 [9] 1 0, PtlsReceive [24, 25] 0 2 [72], SysWrite 1 [72] 1 0,
        SysSelect 4 1 [3], SysRead 3 [] 0 0]"
    by (simp add: new_events_def t1 t')
  from handshake_to_streaming[where f = 3 and wbuf = ?b and rbuf = ?r and w = late_flight
         and w' = w' and ?wbuf1.0 = wbuf1 and ?rbuf1.0 = rbuf1 and roff = 2 and ?w1.0 = w1]
       body hs fits
  have "transition_trace 3 (take (off wbuf1) (base wbuf1)) 2 (take 2 rbuf1) (new_events w1 w')"
    by blast
  with hs body pend left ev show ?thesis by auto
qed

section \<open>The pump runs until the span is consumed\<close>

text \<open>How a run of \<open>write_all\<close> ends, whatever the span: with 0 and no write given up on,
  or with \<open>-1\<close> and a last write that was given up on.\<close>

lemma write_all_status:
  "write_all f data len w = Some (r, w') \<Longrightarrow>
     (r = 0 \<and> (\<forall>e \<in> set (new_events w w'). \<not> fatal_write e)) \<or>
     (r = -1 \<and> new_events w w' \<noteq> [] \<and> fatal_write (last (new_events w w')))"
proof (induction f data len w rule: write_all.induct)
  case (1 f data len w)
  show ?case
  proof (cases "len = 0")
    case True
    with "1.prems" have "r = 0" "w' = w"
      by (subst (asm) write_all.simps; simp)+
    then show ?thesis by (simp add: new_events_def)
  next
    case False
    with "1.prems" obtain wret w1 where wr: "write_retry f data len w = Some (wret, w1)"
      by (subst (asm) write_all.simps) (auto split: option.splits)
    from write_retry_events[OF wr] obtain n where
      n: "new_events w w1 =
            replicate n (SysWrite f [] (-1) EINTR) @
            [SysWrite f (take (nat wret) (take len data)) wret (errno w1)]"
      and ne: "\<not> (wret = -1 \<and> errno w1 = EINTR)"
      by blast
    show ?thesis
    proof (cases "wret \<le> 0")
      case True
      with "1.prems" False wr have "r = -1" "w' = w1"
        by (subst (asm) write_all.simps; simp)+
      with n ne True show ?thesis by simp
    next
      case pos: False
      with "1.prems" False wr
      have rec: "write_all f (drop (nat wret) data) (len - nat wret) w1 = Some (r, w')"
        by (subst (asm) write_all.simps) simp
      have split: "new_events w w' = new_events w w1 @ new_events w1 w'"
        using write_retry_advances[OF wr] write_all_advances[OF rec]
        by (simp add: new_events_trans)
      have nf: "\<forall>e \<in> set (new_events w w1). \<not> fatal_write e"
        unfolding n using pos by auto
      from "1.IH"[OF False wr refl pos rec] show ?thesis
      proof
        assume "r = 0 \<and> (\<forall>e \<in> set (new_events w1 w'). \<not> fatal_write e)"
        with nf show ?thesis unfolding split by auto
      next
        assume "r = -1 \<and> new_events w1 w' \<noteq> [] \<and> fatal_write (last (new_events w1 w'))"
        then show ?thesis unfolding split by simp
      qed
    qed
  qed
qed

text \<open>An unsealing call that reported an error.\<close>

fun unseal_failed :: "event \<Rightarrow> bool" where
  "unseal_failed (PtlsReceive i r c out) = (r \<noteq> 0)"
| "unseal_failed ev = False"

text \<open>What makes the pump give up: an unsealing call that reported an error, or a write
  that was given up on.\<close>

definition pump_stopper :: "event \<Rightarrow> bool" where
  "pump_stopper e \<longleftrightarrow> unseal_failed e \<or> fatal_write e"

lemma dp_body_status:
  assumes "dp_body b input inlen w = Some (fl, w')"
  shows "(\<exists>s. fl = Again s \<and> (\<forall>e \<in> set (new_events w w'). \<not> pump_stopper e)) \<or>
         (fl = Leave (-1) \<and> (\<exists>e \<in> set (new_events w w'). pump_stopper e))"
proof -
  from assms obtain ret b1 c w1 where rc: "ptls_receive b input inlen w = Some ((ret, b1, c), w1)"
    by (auto simp: dp_body_def split: option.splits)
  then obtain out where ev1: "new_events w w1 = [PtlsReceive (take inlen input) ret c out]"
    by (auto simp: ptls_receive_def emit_def new_events_def split: list.splits)
  have a1: "advances w w1" using ptls_receive_advances[OF rc] by simp
  show ?thesis
  proof (cases "ret = 0")
    case False
    with assms rc have fl: "fl = Leave (-1)" and w': "w' = emit (Stderr ''ptls_receive'' ret) w1"
      by (auto simp: dp_body_def)
    have "new_events w w' = new_events w w1 @ [Stderr ''ptls_receive'' ret]"
      unfolding w'
      using new_events_trans[OF a1 emit_advances[of "Stderr ''ptls_receive'' ret" w1]]
      by (simp add: new_events_emit)
    with ev1 False fl show ?thesis by (simp add: pump_stopper_def)
  next
    case True
    show ?thesis
    proof (cases "off b1 = 0")
      case z: True
      with assms rc True have "w' = w1" "\<exists>s. fl = Again s"
        by (auto simp: dp_body_def Let_def)
      with ev1 True show ?thesis by (simp add: pump_stopper_def)
    next
      case nz: False
      with assms rc True obtain wa where wa: "write_all 1 (base b1) (off b1) w1 = Some (wa, w')"
        by (auto simp: dp_body_def Let_def split: option.splits if_splits)
      have split: "new_events w w' = new_events w w1 @ new_events w1 w'"
        using a1 write_all_advances[OF wa] by (rule new_events_trans)
      have nu: "\<forall>e \<in> set (new_events w1 w'). \<not> unseal_failed e"
      proof
        fix e assume "e \<in> set (new_events w1 w')"
        with write_all_writes[OF wa] have "write_on 1 e" by blast
        then show "\<not> unseal_failed e" by (cases e) auto
      qed
      from write_all_status[OF wa] show ?thesis
      proof
        assume ok: "wa = 0 \<and> (\<forall>e \<in> set (new_events w1 w'). \<not> fatal_write e)"
        with assms rc True nz wa have "\<exists>s. fl = Again s"
          by (auto simp: dp_body_def Let_def)
        with ok nu ev1 True show ?thesis
          unfolding split by (auto simp: pump_stopper_def)
      next
        assume bad: "wa = -1 \<and> new_events w1 w' \<noteq> [] \<and> fatal_write (last (new_events w1 w'))"
        with assms rc True nz wa have "fl = Leave (-1)"
          by (auto simp: dp_body_def Let_def)
        moreover from bad have "\<exists>e \<in> set (new_events w1 w'). fatal_write e"
          using last_in_set by blast
        ultimately show ?thesis
          unfolding split by (auto simp: pump_stopper_def)
      qed
    qed
  qed
qed

lemma dp_loop_status:
  "dp_loop b input inlen w = Some (r, w') \<Longrightarrow>
     (r = 0 \<and> (\<forall>e \<in> set (new_events w w'). \<not> pump_stopper e)) \<or>
     (r = -1 \<and> (\<exists>e \<in> set (new_events w w'). pump_stopper e))"
proof (induction b input inlen w rule: dp_loop.induct)
  case (1 b input inlen w)
  show ?case
  proof (cases "inlen = 0")
    case True
    with "1.prems" have "r = 0" "w' = w"
      by (subst (asm) dp_loop.simps; simp)+
    then show ?thesis by (simp add: new_events_def)
  next
    case False
    with "1.prems" obtain fl w1 where body: "dp_body b input inlen w = Some (fl, w1)"
      by (subst (asm) dp_loop.simps) (auto split: option.splits)
    from dp_body_status[OF body] show ?thesis
    proof
      assume "\<exists>s. fl = Again s \<and> (\<forall>e \<in> set (new_events w w1). \<not> pump_stopper e)"
      then obtain st where Again: "fl = Again st"
        and ns: "\<forall>e \<in> set (new_events w w1). \<not> pump_stopper e"
        by blast
      obtain b1 i1 n1 where st: "st = (b1, i1, n1)" by (cases st)
      with "1.prems" False body Again have rec: "dp_loop b1 i1 n1 w1 = Some (r, w')"
        by (subst (asm) dp_loop.simps) simp
      have split: "new_events w w' = new_events w w1 @ new_events w1 w'"
        using dp_body_advances(1)[OF body] dp_loop_advances[OF rec] by (rule new_events_trans)
      from "1.IH"[OF False body refl Again[unfolded st] refl refl rec] ns show ?thesis
        unfolding split by auto
    next
      assume lv: "fl = Leave (-1) \<and> (\<exists>e \<in> set (new_events w w1). pump_stopper e)"
      with "1.prems" False body have "w' = w1" "r = -1"
        by (subst (asm) dp_loop.simps; simp)+
      with lv show ?thesis by simp
    qed
  qed
qed


text \<open>An answer to \<open>write\<close> that \<open>write_all\<close> does not give up on: some bytes
  accepted, or an interrupt.\<close>

fun benign :: "wresult \<Rightarrow> bool" where
  "benign (Accept n) = (0 < n)"
| "benign (WFail e) = (e = EINTR)"

lemma write_retry_benign:
  "wr_script w f = script \<Longrightarrow> \<forall>a \<in> set script. benign a \<Longrightarrow> 0 < answers script \<Longrightarrow>
   0 < len \<Longrightarrow>
     \<exists>r w'. write_retry f data len w = Some (r, w') \<and> 0 < r \<and>
       Suc (answers (wr_script w' f)) = answers script \<and>
       (\<forall>a \<in> set (wr_script w' f). benign a)"
proof (induction script arbitrary: w)
  case Nil
  then show ?case by (simp add: answers_def)
next
  case (Cons a rest)
  from Cons.prems(2) have ben: "\<forall>a \<in> set rest. benign a" and ba: "benign a" by simp_all
  show ?case
  proof (cases a)
    case (WFail e)
    with ba have e: "e = EINTR" by simp
    define w1 where "w1 = emit (SysWrite f [] (-1) EINTR)
                            (w\<lparr>wr_script := (wr_script w)(f := rest), errno := EINTR\<rparr>)"
    have sw: "sys_write f data len w = Some (-1, w1)"
      using Cons.prems(1) WFail e by (simp add: sys_write_def w1_def)
    have w1: "wr_script w1 f = rest" "errno w1 = EINTR"
      by (simp_all add: w1_def emit_def)
    from Cons.prems(3) WFail e have "0 < answers rest"
      by (simp add: answers_def)
    from Cons.IH[OF w1(1) ben this Cons.prems(4)] obtain r w' where
      "write_retry f data len w1 = Some (r, w')" "0 < r"
      "Suc (answers (wr_script w' f)) = answers rest" "\<forall>a \<in> set (wr_script w' f). benign a"
      by blast
    moreover have "write_retry f data len w = write_retry f data len w1"
      using sw w1(2) by (subst write_retry.simps) simp
    ultimately show ?thesis
      using WFail e by (auto simp: answers_def)
  next
    case (Accept k)
    with ba have k: "0 < k" by simp
    define w1 where "w1 = emit (SysWrite f (take (min k len) (take len data)) (int (min k len)) (errno w))
                            (w\<lparr>wr_script := (wr_script w)(f := rest)\<rparr>)"
    have sw: "sys_write f data len w = Some (int (min k len), w1)"
      using Cons.prems(1) Accept by (simp add: sys_write_def w1_def Let_def)
    have w1: "wr_script w1 f = rest" by (simp add: w1_def emit_def)
    have pos: "0 < int (min k len)" using k Cons.prems(4) by simp
    then have "write_retry f data len w = Some (int (min k len), w1)"
      using sw by (subst write_retry.simps) simp
    with pos w1 ben Accept show ?thesis
      by (auto simp: answers_def)
  qed
qed

lemma write_all_benign:
  "\<forall>a \<in> set (wr_script w f). benign a \<Longrightarrow> len \<le> answers (wr_script w f) \<Longrightarrow>
     \<exists>w'. write_all f data len w = Some (0, w') \<and>
       answers (wr_script w f) - len \<le> answers (wr_script w' f) \<and>
       (\<forall>a \<in> set (wr_script w' f). benign a)"
proof (induction f data len w rule: write_all.induct)
  case (1 f data len w)
  show ?case
  proof (cases "len = 0")
    case True
    with "1.prems" show ?thesis by (subst write_all.simps) simp
  next
    case False
    with "1.prems" have "0 < answers (wr_script w f)" "0 < len" by simp_all
    from write_retry_benign[OF refl "1.prems"(1) this] obtain wret w1 where
      wr: "write_retry f data len w = Some (wret, w1)" and pos: "0 < wret"
      and an: "Suc (answers (wr_script w1 f)) = answers (wr_script w f)"
      and ben: "\<forall>a \<in> set (wr_script w1 f). benign a"
      by blast
    have np: "\<not> wret \<le> 0" using pos by simp
    from pos have k: "0 < nat wret" by simp
    with "1.prems"(2) an have "len - nat wret \<le> answers (wr_script w1 f)" by simp
    from "1.IH"[OF False wr refl np ben this] obtain w' where
      rec: "write_all f (drop (nat wret) data) (len - nat wret) w1 = Some (0, w')"
      and an': "answers (wr_script w1 f) - (len - nat wret) \<le> answers (wr_script w' f)"
      and ben': "\<forall>a \<in> set (wr_script w' f). benign a"
      by blast
    from False wr np rec have "write_all f data len w = Some (0, w')"
      by (subst write_all.simps) simp
    moreover from an an' k False have "answers (wr_script w f) - len \<le> answers (wr_script w' f)"
      by arith
    ultimately show ?thesis using ben' by blast
  qed
qed

lemma dp_loop_conforming:
  "receive_script w = script \<Longrightarrow> serves n script \<Longrightarrow> \<forall>a \<in> set script. reply_ret a = 0 \<Longrightarrow>
   output_total script \<le> answers (wr_script w 1) \<Longrightarrow> \<forall>a \<in> set (wr_script w 1). benign a \<Longrightarrow>
   off b = 0 \<Longrightarrow> n \<le> length input \<Longrightarrow>
     \<exists>w'. dp_loop b input n w = Some (0, w') \<and> (\<forall>e \<in> set (new_events w w'). in_contract e)"
proof (induction script arbitrary: w n b input)
  case Nil
  then have "dp_loop b input n w = Some (0, w)" by (subst dp_loop.simps) simp
  then show ?case by (auto simp: new_events_def)
next
  case (Cons a rest)
  show ?case
  proof (cases "n = 0")
    case True
    then have "dp_loop b input n w = Some (0, w)" by (subst dp_loop.simps) simp
    then show ?thesis by (auto simp: new_events_def)
  next
    case False
    from Cons.prems(3) have ret: "reply_ret a = 0" and rets: "\<forall>a \<in> set rest. reply_ret a = 0"
      by simp_all
    with Cons.prems(2) False have c: "1 \<le> reply_consumed a" "reply_consumed a \<le> n"
      and srv: "serves (n - reply_consumed a) rest"
      by auto
    have sub: "size_sub n (reply_consumed a) = n - reply_consumed a"
      using c by (simp add: size_sub_le)
    define w1 where "w1 = emit (PtlsReceive (take n input) (reply_ret a) (reply_consumed a)
                                  (reply_output a)) (w\<lparr>receive_script := rest\<rparr>)"
    define b1 where "b1 = buffer_push b (reply_output a)"
    have rc: "ptls_receive b input n w = Some ((reply_ret a, b1, reply_consumed a), w1)"
      using Cons.prems(1) by (simp add: ptls_receive_def w1_def b1_def)
    have w1: "receive_script w1 = rest" "wr_script w1 = wr_script w"
      by (simp_all add: w1_def emit_def)
    have b1: "off b1 = length (reply_output a)"
      using Cons.prems(6) by (simp add: b1_def buffer_push_def)
    have out: "length (reply_output a) + output_total rest \<le> answers (wr_script w 1)"
      using Cons.prems(4) by (simp add: output_total_def)
    have len': "n - reply_consumed a \<le> length (drop (reply_consumed a) input)"
      using Cons.prems(7) by simp
    have "\<exists>b2 w2. dp_body b input n w =
              Some (Again (b2, drop (reply_consumed a) input, n - reply_consumed a), w2) \<and>
            off b2 = 0 \<and> receive_script w2 = rest \<and>
            output_total rest \<le> answers (wr_script w2 1) \<and>
            (\<forall>a \<in> set (wr_script w2 1). benign a)"
    proof (cases "off b1 = 0")
      case True
      with rc ret sub have "dp_body b input n w =
          Some (Again (b1, drop (reply_consumed a) input, n - reply_consumed a), w1)"
        by (simp add: dp_body_def)
      with True w1 out Cons.prems(5) show ?thesis by auto
    next
      case nz: False
      from out b1 w1 have "off b1 \<le> answers (wr_script w1 1)" by simp
      moreover from Cons.prems(5) w1 have "\<forall>a \<in> set (wr_script w1 1). benign a" by simp
      ultimately obtain w2 where
        wa: "write_all 1 (base b1) (off b1) w1 = Some (0, w2)"
        and an: "answers (wr_script w1 1) - off b1 \<le> answers (wr_script w2 1)"
        and ben: "\<forall>a \<in> set (wr_script w2 1). benign a"
        using write_all_benign[of w1 1 "off b1" "base b1"] by blast
      from rc ret nz wa sub have "dp_body b input n w =
          Some (Again (b1\<lparr>off := 0\<rparr>, drop (reply_consumed a) input, n - reply_consumed a), w2)"
        by (simp add: dp_body_def)
      moreover have "receive_script w2 = rest"
        using write_all_writes_only[OF wa] w1 by (simp add: writes_only_def)
      moreover from out an b1 w1 have "output_total rest \<le> answers (wr_script w2 1)" by simp
      ultimately show ?thesis using ben by auto
    qed
    then obtain b2 w2 where
      body: "dp_body b input n w =
               Some (Again (b2, drop (reply_consumed a) input, n - reply_consumed a), w2)"
      and b2: "off b2 = 0" and r2: "receive_script w2 = rest"
      and out2: "output_total rest \<le> answers (wr_script w2 1)"
      and ben2: "\<forall>a \<in> set (wr_script w2 1). benign a"
      by blast
    from Cons.IH[OF r2 srv rets out2 ben2 b2 len'] obtain w' where
      rec: "dp_loop b2 (drop (reply_consumed a) input) (n - reply_consumed a) w2 = Some (0, w')"
      and con: "\<forall>e \<in> set (new_events w2 w'). in_contract e"
      by blast
    from body False rec have run: "dp_loop b input n w = Some (0, w')"
      by (subst dp_loop.simps) simp
    from dp_body_Again[OF body Cons.prems(6)] obtain c' out' wevs where
      a': "\<exists>x. receive_script w = x # receive_script w2 \<and> reply_ret x = 0 \<and>
                reply_consumed x = c' \<and> reply_output x = out'"
      and ev: "new_events w w2 = PtlsReceive (take n input) 0 c' out' # wevs"
      and on: "\<forall>e \<in> set wevs. write_on 1 e"
      by blast
    from a' Cons.prems(1) have c': "c' = reply_consumed a" by auto
    have "\<forall>e \<in> set (new_events w w2). in_contract e"
      unfolding ev using written_writes[OF on] c c' Cons.prems(7) by simp
    moreover have "new_events w w' = new_events w w2 @ new_events w2 w'"
      using dp_body_advances(1)[OF body] dp_loop_advances[OF rec] by (rule new_events_trans)
    ultimately show ?thesis using run con by auto
  qed
qed


text \<open>C4: on a span of \<open>n\<close> bytes, with an engine that consumes between 1 and the
  bytes offered at each call, every unsealing call of \<open>decrypt_and_print\<close> is offered the
  span from the cursor on, which is not empty, and the cursor moves by what the call
  consumed; there are at most \<open>n\<close> calls, none when \<open>n = 0\<close>. The pump returns 0 only
  when the calls have consumed \<open>n\<close> bytes in all, and \<open>-1\<close> only after an unsealing call
  that reported an error or a write that was given up on. It returns whenever the script
  of the engine serves the span and standard output answers often enough; and when moreover
  the engine reports no error and standard output never fails, it returns 0, with
  \<open>n\<close> bytes consumed.\<close>

theorem pump_exhaustion:
  "(decrypt_and_print input n w = Some (r, w') \<and> n \<le> length input \<and>
      (\<forall>e \<in> set (new_events w w'). in_contract e) \<longrightarrow>
        cursor_chain (take n input) (new_events w w') \<and>
        unseal_calls (new_events w w') \<le> n \<and>
        (r = 0 \<and> consumed_total (new_events w w') = n \<and>
           (\<forall>e \<in> set (new_events w w'). \<not> pump_stopper e) \<or>
         r = -1 \<and> (\<exists>e \<in> set (new_events w w'). pump_stopper e))) \<and>
   decrypt_and_print input 0 w = Some (0, w) \<and>
   (serves n (receive_script w) \<and> output_total (receive_script w) \<le> answers (wr_script w 1) \<longrightarrow>
      decrypt_and_print input n w \<noteq> None) \<and>
   (n \<le> length input \<and> serves n (receive_script w) \<and>
    (\<forall>a \<in> set (receive_script w). reply_ret a = 0) \<and>
    output_total (receive_script w) \<le> answers (wr_script w 1) \<and>
    (\<forall>a \<in> set (wr_script w 1). benign a) \<longrightarrow>
      (\<exists>v. decrypt_and_print input n w = Some (0, v) \<and>
         consumed_total (new_events w v) = n \<and>
         cursor_chain (take n input) (new_events w v) \<and>
         unseal_calls (new_events w v) \<le> n))"
proof -
  let ?b = "ptls_buffer_init (replicate 1024 0)"
  have off0: "off ?b = 0" by (simp add: ptls_buffer_init_def)
  have zero: "decrypt_and_print input 0 w = Some (0, w)"
    unfolding decrypt_and_print_def by (subst dp_loop.simps) simp
  have total: "decrypt_and_print input n w \<noteq> None"
    if "serves n (receive_script w)" "output_total (receive_script w) \<le> answers (wr_script w 1)"
    using dp_loop_total[OF refl that off0, of input]
    by (auto simp: decrypt_and_print_def)
  have run: "cursor_chain (take n input) (new_events w w') \<and>
        unseal_calls (new_events w w') \<le> n \<and>
        (r = 0 \<and> consumed_total (new_events w w') = n \<and>
           (\<forall>e \<in> set (new_events w w'). \<not> pump_stopper e) \<or>
         r = -1 \<and> (\<exists>e \<in> set (new_events w w'). pump_stopper e))"
    if "decrypt_and_print input n w = Some (r, w')" "n \<le> length input"
      "\<forall>e \<in> set (new_events w w'). in_contract e" for r w'
    using dp_loop_run[OF that(1)[unfolded decrypt_and_print_def] off0 that(2,3)]
          dp_loop_status[OF that(1)[unfolded decrypt_and_print_def]]
    by auto
  have conf: "\<exists>v. decrypt_and_print input n w = Some (0, v) \<and>
         consumed_total (new_events w v) = n \<and>
         cursor_chain (take n input) (new_events w v) \<and>
         unseal_calls (new_events w v) \<le> n"
    if "n \<le> length input" "serves n (receive_script w)"
      "\<forall>a \<in> set (receive_script w). reply_ret a = 0"
      "output_total (receive_script w) \<le> answers (wr_script w 1)"
      "\<forall>a \<in> set (wr_script w 1). benign a"
  proof -
    from dp_loop_conforming[OF refl that(2,3,4,5) off0 that(1)] obtain v where
      v: "decrypt_and_print input n w = Some (0, v)"
      and con: "\<forall>e \<in> set (new_events w v). in_contract e"
      unfolding decrypt_and_print_def by blast
    from run[OF v that(1) con] v show ?thesis by auto
  qed
  show ?thesis
  proof (intro conjI impI)
    assume h: "decrypt_and_print input n w = Some (r, w') \<and> n \<le> length input \<and>
      (\<forall>e \<in> set (new_events w w'). in_contract e)"
    then have h': "decrypt_and_print input n w = Some (r, w')" "n \<le> length input"
      "\<forall>e \<in> set (new_events w w'). in_contract e"
      by simp_all
    note r = run[OF h']
    from r show "cursor_chain (take n input) (new_events w w')" by simp
    from r show "unseal_calls (new_events w w') \<le> n" by simp
    from r show "r = 0 \<and> consumed_total (new_events w w') = n \<and>
           (\<forall>e \<in> set (new_events w w'). \<not> pump_stopper e) \<or>
         r = -1 \<and> (\<exists>e \<in> set (new_events w w'). pump_stopper e)" by simp
  next
    show "decrypt_and_print input 0 w = Some (0, w)" by (rule zero)
  next
    assume "serves n (receive_script w) \<and>
      output_total (receive_script w) \<le> answers (wr_script w 1)"
    then show "decrypt_and_print input n w \<noteq> None" using total by simp
  next
    assume "n \<le> length input \<and> serves n (receive_script w) \<and>
      (\<forall>a \<in> set (receive_script w). reply_ret a = 0) \<and>
      output_total (receive_script w) \<le> answers (wr_script w 1) \<and>
      (\<forall>a \<in> set (wr_script w 1). benign a)"
    then show "\<exists>v. decrypt_and_print input n w = Some (0, v) \<and>
         consumed_total (new_events w v) = n \<and>
         cursor_chain (take n input) (new_events w v) \<and>
         unseal_calls (new_events w v) \<le> n"
      using conf by simp
  qed
qed

text \<open>An engine that reports an error at its second call.\<close>

definition engine_error :: world where
  "engine_error = idle\<lparr>receive_script := [reply 0 2 [], reply 50 0 []]\<rparr>"

lemma engine_error_run:
  "outcome engine_error (decrypt_and_print [1, 2, 3, 4, 5] 5 engine_error) =
     Some (-1, [PtlsReceive [1, 2, 3, 4, 5] 0 2 [], PtlsReceive [3, 4, 5] 50 0 [],
                Stderr ''ptls_receive'' 50])"
  by code_simp

text \<open>Five records of one byte each.\<close>

definition five_records :: world where
  "five_records =
     idle\<lparr>receive_script := [reply 0 1 [], reply 0 1 [], reply 0 1 [], reply 0 1 [], reply 0 1 []]\<rparr>"

lemma five_records_run:
  "outcome five_records (decrypt_and_print [1, 2, 3, 4, 5] 5 five_records) =
     Some (0, [PtlsReceive [1, 2, 3, 4, 5] 0 1 [], PtlsReceive [2, 3, 4, 5] 0 1 [],
               PtlsReceive [3, 4, 5] 0 1 [], PtlsReceive [4, 5] 0 1 [], PtlsReceive [5] 0 1 []])"
  by code_simp

theorem pump_exhaustion_witness:
  "(\<exists>w'. decrypt_and_print [1, 2, 3, 4, 5] 5 three_records = Some (0, w') \<and>
      new_events three_records w' =
        [PtlsReceive [1, 2, 3, 4, 5] 0 2 [10, 11], SysWrite 1 [10] 1 0, SysWrite 1 [11] 1 0,
         PtlsReceive [3, 4, 5] 0 1 [], PtlsReceive [4, 5] 0 2 [12], SysWrite 1 [12] 1 0] \<and>
      cursor_chain [1, 2, 3, 4, 5] (new_events three_records w') \<and>
      unseal_calls (new_events three_records w') \<le> 5 \<and>
      consumed_total (new_events three_records w') = 5) \<and>
   serves 5 (receive_script three_records) \<and>
   (\<exists>v. decrypt_and_print [1, 2, 3, 4, 5] 5 engine_error = Some (-1, v) \<and>
      new_events engine_error v =
        [PtlsReceive [1, 2, 3, 4, 5] 0 2 [], PtlsReceive [3, 4, 5] 50 0 [],
         Stderr ''ptls_receive'' 50] \<and>
      pump_stopper (PtlsReceive [3, 4, 5] 50 0 [])) \<and>
   (\<exists>u. decrypt_and_print [1, 2, 3, 4, 5] 5 five_records = Some (0, u) \<and>
      new_events five_records u =
        [PtlsReceive [1, 2, 3, 4, 5] 0 1 [], PtlsReceive [2, 3, 4, 5] 0 1 [],
         PtlsReceive [3, 4, 5] 0 1 [], PtlsReceive [4, 5] 0 1 [], PtlsReceive [5] 0 1 []] \<and>
      consumed_total (new_events five_records u) = 5 \<and>
      cursor_chain [1, 2, 3, 4, 5] (new_events five_records u))"
proof -
  have len: "5 \<le> length [1, 2, 3, 4, 5 :: byte]" by simp
  have srv: "serves 5 (receive_script three_records)"
    by (simp add: three_records_def idle_def reply_def)
  have rets: "\<forall>a \<in> set (receive_script three_records). reply_ret a = 0"
    by (simp add: three_records_def idle_def reply_def)
  have out: "output_total (receive_script three_records) \<le> answers (wr_script three_records 1)"
    by (simp add: three_records_def idle_def reply_def output_total_def answers_def)
  have ben: "\<forall>a \<in> set (wr_script three_records 1). benign a"
    by (simp add: three_records_def idle_def)
  from pump_exhaustion[where input = "[1, 2, 3, 4, 5]" and n = 5 and w = three_records]
       len srv rets out ben
  obtain w' where run: "decrypt_and_print [1, 2, 3, 4, 5] 5 three_records = Some (0, w')"
    and tot: "consumed_total (new_events three_records w') = 5"
    and chain: "cursor_chain (take 5 [1, 2, 3, 4, 5]) (new_events three_records w')"
    and calls: "unseal_calls (new_events three_records w') \<le> 5"
    by blast
  from three_records_run run have ev: "new_events three_records w' =
       [PtlsReceive [1, 2, 3, 4, 5] 0 2 [10, 11], SysWrite 1 [10] 1 0, SysWrite 1 [11] 1 0,
        PtlsReceive [3, 4, 5] 0 1 [], PtlsReceive [4, 5] 0 2 [12], SysWrite 1 [12] 1 0]"
    by (auto dest: outcome_SomeD)
  from engine_error_run obtain v where
    run2: "decrypt_and_print [1, 2, 3, 4, 5] 5 engine_error = Some (-1, v)"
    and ev2: "new_events engine_error v =
        [PtlsReceive [1, 2, 3, 4, 5] 0 2 [], PtlsReceive [3, 4, 5] 50 0 [],
         Stderr ''ptls_receive'' 50]"
    by (blast dest: outcome_SomeD)
  have con2: "\<forall>e \<in> set (new_events engine_error v). in_contract e"
    by (simp add: ev2)
  from pump_exhaustion[where input = "[1, 2, 3, 4, 5]" and n = 5 and w = engine_error
         and r = "-1" and w' = v] run2 len con2
  have "\<exists>e \<in> set (new_events engine_error v). pump_stopper e"
    by simp
  then have st: "pump_stopper (PtlsReceive [3, 4, 5] 50 0 [])"
    by (auto simp: ev2 pump_stopper_def)
  have srv5: "serves 5 (receive_script five_records)"
    "\<forall>a \<in> set (receive_script five_records). reply_ret a = 0"
    "output_total (receive_script five_records) \<le> answers (wr_script five_records 1)"
    "\<forall>a \<in> set (wr_script five_records 1). benign a"
    by (simp_all add: five_records_def idle_def reply_def output_total_def answers_def)
  from pump_exhaustion[where input = "[1, 2, 3, 4, 5]" and n = 5 and w = five_records]
       len srv5
  obtain u where run5: "decrypt_and_print [1, 2, 3, 4, 5] 5 five_records = Some (0, u)"
    and tot5: "consumed_total (new_events five_records u) = 5"
    and chain5: "cursor_chain (take 5 [1, 2, 3, 4, 5]) (new_events five_records u)"
    by blast
  from five_records_run run5 have ev5: "new_events five_records u =
        [PtlsReceive [1, 2, 3, 4, 5] 0 1 [], PtlsReceive [2, 3, 4, 5] 0 1 [],
         PtlsReceive [3, 4, 5] 0 1 [], PtlsReceive [4, 5] 0 1 [], PtlsReceive [5] 0 1 []]"
    by (auto dest: outcome_SomeD)
  from run ev chain calls tot srv run2 ev2 st run5 ev5 tot5 chain5 show ?thesis by auto
qed

section \<open>The handshake driver returns what the engine decided\<close>

text \<open>The return codes of the successive handshake steps along a trace.\<close>

fun handshake_rets :: "event list \<Rightarrow> int list" where
  "handshake_rets [] = []"
| "handshake_rets (PtlsHandshake i r c # evs) = r # handshake_rets evs"
| "handshake_rets (ev # evs) = handshake_rets evs"

text \<open>What makes \<open>run_handshake\<close> give up: a write or a read whose result is not positive
  and not an interrupt, or the report of an error of the engine.\<close>

fun hs_abort :: "event \<Rightarrow> bool" where
  "hs_abort (SysWrite g bs r e) = (r \<le> 0 \<and> \<not> (r = -1 \<and> e = EINTR))"
| "hs_abort (SysRead g bs r e) = (r \<le> 0 \<and> \<not> (r = -1 \<and> e = EINTR))"
| "hs_abort (Stderr s n) = (n \<noteq> 0)"
| "hs_abort ev = False"

lemma fatal_write_abort: "fatal_write e \<Longrightarrow> hs_abort e"
  by (cases e) auto

lemma handshake_rets_append:
  "handshake_rets (xs @ ys) = handshake_rets xs @ handshake_rets ys"
  by (induction xs rule: handshake_rets.induct) auto

lemma writes_no_rets: "\<forall>e \<in> set evs. write_on g e \<Longrightarrow> handshake_rets evs = []"
proof (induction evs)
  case Nil
  then show ?case by simp
next
  case (Cons e evs)
  then show ?case by (cases e) auto
qed

lemma reads_no_rets: "\<forall>e \<in> set evs. read_on g e \<Longrightarrow> handshake_rets evs = []"
proof (induction evs)
  case Nil
  then show ?case by simp
next
  case (Cons e evs)
  then show ?case by (cases e) auto
qed

lemma read_while_last:
  "read_while v f buf cap w = Some ((r, buf'), w') \<Longrightarrow>
     (\<exists>pre bs. new_events w w' = pre @ [SysRead f bs r (errno w')]) \<and>
     \<not> (r = v \<and> errno w' = EINTR)"
proof (induction v f buf cap w rule: read_while.induct)
  case (1 v f buf cap w)
  from "1.prems" obtain rret buf1 w1 where sr: "sys_read f buf cap w = Some ((rret, buf1), w1)"
    by (subst (asm) read_while.simps) (auto split: option.splits)
  then obtain bs where ev1: "new_events w w1 = [SysRead f bs rret (errno w1)]"
    by (auto simp: sys_read_def emit_def Let_def new_events_def split: list.splits rresult.splits)
  show ?case
  proof (cases "rret = v \<and> errno w1 = EINTR")
    case True
    with "1.prems" sr have rec: "read_while v f buf1 cap w1 = Some ((r, buf'), w')"
      by (subst (asm) read_while.simps) simp
    have split: "new_events w w' = new_events w w1 @ new_events w1 w'"
      using sys_read_advances[OF sr] read_while_advances[OF rec] by (simp add: new_events_trans)
    from "1.IH"[OF sr refl refl True rec] obtain pre bs' where
      "new_events w1 w' = pre @ [SysRead f bs' r (errno w')]" and ne: "\<not> (r = v \<and> errno w' = EINTR)"
      by blast
    with split have "new_events w w' = (new_events w w1 @ pre) @ [SysRead f bs' r (errno w')]"
      by simp
    with ne show ?thesis by blast
  next
    case False
    with "1.prems" sr have "w' = w1" "r = rret"
      by (subst (asm) read_while.simps; auto)+
    with ev1 False have "new_events w w' = [] @ [SysRead f bs r (errno w')]" by simp
    with False \<open>w' = w1\<close> \<open>r = rret\<close> show ?thesis by blast
  qed
qed

lemma in_progress_not_success: "PTLS_ERROR_HANDSHAKE_IN_PROGRESS \<noteq> 0"
  by (simp add: PTLS_ERROR_HANDSHAKE_IN_PROGRESS_def)

text \<open>How a run of the loop of \<open>run_handshake\<close> ends: with 0 after a handshake step that
  reported success, or with \<open>-1\<close> after a last step that did not, and then the last event
  is what made it give up.\<close>

lemma hs_loop_status:
  "hs_loop f bufsz wbuf pin plen rret w = Some ((r, wbuf', buf', len'), w') \<Longrightarrow>
     handshake_rets (new_events w w') \<noteq> [] \<and>
     (r = 0 \<and> last (handshake_rets (new_events w w')) = 0 \<or>
      r = -1 \<and> last (handshake_rets (new_events w w')) \<noteq> 0 \<and> hs_abort (last (new_events w w')))"
proof (induction f bufsz wbuf pin plen rret w rule: hs_loop.induct)
  case (1 f bufsz wbuf pin plen rret w)
  from "1.prems" obtain ret wbuf1 len1 w1 where
    hs: "ptls_handshake wbuf pin plen w = Some ((ret, wbuf1, len1), w1)"
    by (subst (asm) hs_loop.simps) (auto split: option.splits)
  have ev1: "new_events w w1 = [PtlsHandshake (take plen pin) ret len1]"
    using hs by (auto simp: ptls_handshake_def emit_def new_events_def split: list.splits)
  note a1 = ptls_handshake_advances[OF hs, THEN conjunct1]
  show ?case
  proof (cases "ret = PTLS_ERROR_HANDSHAKE_IN_PROGRESS")
    case False
    with "1.prems" hs
    have fin: "hs_finish ret wbuf1 pin len1 rret w1 = ((r, wbuf', buf', len'), w')"
      by (subst (asm) hs_loop.simps) simp
    show ?thesis
    proof (cases "ret = 0")
      case True
      with fin have "r = 0" "w' = w1"
        by (auto simp: hs_finish_def Let_def)
      with ev1 True show ?thesis by simp
    next
      case nz: False
      with fin have r: "r = -1" and w': "w' = emit (Stderr ''ptls_handshake'' ret) w1"
        by (auto simp: hs_finish_def)
      have "new_events w w' = new_events w w1 @ [Stderr ''ptls_handshake'' ret]"
        unfolding w'
        using new_events_trans[OF a1 emit_advances[of "Stderr ''ptls_handshake'' ret" w1]]
        by (simp add: new_events_emit)
      with ev1 nz r show ?thesis by simp
    qed
  next
    case True
    with "1.prems" hs obtain wa w2 where
      wa: "write_all f (base wbuf1) (off wbuf1) w1 = Some (wa, w2)"
      by (subst (asm) hs_loop.simps) (auto split: option.splits)
    note a2 = write_all_advances[OF wa]
    note wn = writes_no_rets[OF write_all_writes[OF wa]]
    show ?thesis
    proof (cases "wa = 0")
      case False
      with "1.prems" hs True wa have r: "r = -1" and w': "w' = w2"
        by (subst (asm) hs_loop.simps; simp)+
      from write_all_status[OF wa] False
      have ne: "new_events w1 w2 \<noteq> []" and ft: "fatal_write (last (new_events w1 w2))"
        by auto
      have split: "new_events w w' = new_events w w1 @ new_events w1 w2"
        unfolding w' using a1 a2 by (rule new_events_trans)
      have "handshake_rets (new_events w w') = [ret]"
        unfolding split by (simp add: handshake_rets_append ev1 wn)
      moreover have "last (new_events w w') = last (new_events w1 w2)"
        unfolding split using ne by simp
      ultimately show ?thesis
        using r True ft in_progress_not_success by (simp add: fatal_write_abort)
    next
      case wz: True
      with "1.prems" hs True wa obtain rret1 pin1 w3 where
        rd: "read_while (-1) f pin bufsz w2 = Some ((rret1, pin1), w3)"
        by (subst (asm) hs_loop.simps) (auto split: option.splits)
      note a3 = read_while_advances[OF rd]
      note rn = reads_no_rets[OF read_while_events[OF rd, THEN conjunct2]]
      from read_while_last[OF rd] obtain pre bs where
        rev: "new_events w2 w3 = pre @ [SysRead f bs rret1 (errno w3)]"
        and rne: "\<not> (rret1 = -1 \<and> errno w3 = EINTR)"
        by blast
      show ?thesis
      proof (cases "rret1 \<le> 0")
        case True
        with "1.prems" hs \<open>ret = PTLS_ERROR_HANDSHAKE_IN_PROGRESS\<close> wa wz rd
        have r: "r = -1" and w': "w' = w3"
          by (subst (asm) hs_loop.simps; simp)+
        have split: "new_events w w' = new_events w w1 @ new_events w1 w2 @ new_events w2 w3"
          unfolding w'
          by (simp add: new_events_trans[OF a1 advances_trans[OF a2 a3]] new_events_trans[OF a2 a3])
        have "handshake_rets (new_events w w') = [ret]"
          unfolding split by (simp add: handshake_rets_append ev1 wn rn)
        moreover have "last (new_events w w') = SysRead f bs rret1 (errno w3)"
          unfolding split rev by simp
        ultimately show ?thesis
          using r \<open>ret = PTLS_ERROR_HANDSHAKE_IN_PROGRESS\<close> True rne in_progress_not_success
          by simp
      next
        case pos: False
        with "1.prems" hs True wa wz rd
        have rec: "hs_loop f bufsz (wbuf1\<lparr>off := 0\<rparr>) pin1 (to_size_t rret1) rret1 w3 =
                     Some ((r, wbuf', buf', len'), w')"
          by (subst (asm) hs_loop.simps) simp
        have nz: "\<not> wa \<noteq> 0" using wz by simp
        note IH = "1.IH"[OF hs refl refl refl True wa refl nz rd refl refl pos rec]
        note a4 = hs_loop_advances[OF rec]
        have split: "new_events w w' =
            (new_events w w1 @ new_events w1 w2 @ new_events w2 w3) @ new_events w3 w'"
          by (simp add: new_events_trans[OF a1 advances_trans[OF a2 advances_trans[OF a3 a4]]]
                        new_events_trans[OF a2 advances_trans[OF a3 a4]] new_events_trans[OF a3 a4])
        from IH have ne: "new_events w3 w' \<noteq> []" by auto
        have rets: "handshake_rets (new_events w w') = ret # handshake_rets (new_events w3 w')"
          unfolding split by (simp add: handshake_rets_append ev1 wn rn)
        have lst: "last (new_events w w') = last (new_events w3 w')"
          unfolding split using ne by simp
        from IH show ?thesis
          unfolding rets lst by auto
      qed
    qed
  qed
qed


text \<open>The answers of a script of reads that are not interrupts, and an answer that the
  loop of \<open>run_handshake\<close> goes on after: some bytes, or an interrupt.\<close>

definition read_answers :: "rresult list \<Rightarrow> nat" where
  "read_answers script = length (filter (\<lambda>a. a \<noteq> RFail EINTR) script)"

fun good_read :: "rresult \<Rightarrow> bool" where
  "good_read (Deliver bs) = (bs \<noteq> [])"
| "good_read (RFail e) = (e = EINTR)"

lemma read_while_total:
  "rd_script w f = script \<Longrightarrow> 0 < read_answers script \<Longrightarrow>
     \<exists>r buf' w'. read_while (-1) f buf cap w = Some ((r, buf'), w') \<and>
       Suc (read_answers (rd_script w' f)) = read_answers script \<and>
       wr_script w' = wr_script w \<and> handshake_script w' = handshake_script w \<and>
       ((\<forall>a \<in> set script. good_read a) \<and> 0 < cap \<longrightarrow>
          0 < r \<and> (\<forall>a \<in> set (rd_script w' f). good_read a))"
proof (induction script arbitrary: w buf)
  case Nil
  then show ?case by (simp add: read_answers_def)
next
  case (Cons a rest)
  show ?case
  proof (cases a)
    case (RFail e)
    define w1 where "w1 = emit (SysRead f [] (-1) e)
                            (w\<lparr>rd_script := (rd_script w)(f := rest), errno := e\<rparr>)"
    have sr: "sys_read f buf cap w = Some ((-1, buf), w1)"
      using Cons.prems(1) RFail by (simp add: sys_read_def w1_def)
    have w1: "rd_script w1 f = rest" "errno w1 = e" "wr_script w1 = wr_script w"
      "handshake_script w1 = handshake_script w"
      by (simp_all add: w1_def emit_def)
    show ?thesis
    proof (cases "e = EINTR")
      case True
      with Cons.prems(2) RFail have "0 < read_answers rest"
        by (simp add: read_answers_def)
      from Cons.IH[OF w1(1) this, of buf] obtain r buf' w' where
        rec: "read_while (-1) f buf cap w1 = Some ((r, buf'), w')"
        and an: "Suc (read_answers (rd_script w' f)) = read_answers rest"
        and fr: "wr_script w' = wr_script w1" "handshake_script w' = handshake_script w1"
        and good: "(\<forall>a \<in> set rest. good_read a) \<and> 0 < cap \<longrightarrow>
                     0 < r \<and> (\<forall>a \<in> set (rd_script w' f). good_read a)"
        by blast
      have "read_while (-1) f buf cap w = read_while (-1) f buf cap w1"
        using sr w1(2) True by (subst read_while.simps) simp
      with rec an fr good w1 RFail True show ?thesis
        by (auto simp: read_answers_def)
    next
      case False
      with sr w1(2) have "read_while (-1) f buf cap w = Some ((-1, buf), w1)"
        by (subst read_while.simps) simp
      with w1 RFail False show ?thesis
        by (auto simp: read_answers_def)
    qed
  next
    case (Deliver bs)
    define got where "got = take cap bs"
    define w1 where "w1 = emit (SysRead f got (int (length got)) (errno w))
                            (w\<lparr>rd_script := (rd_script w)(f := rest)\<rparr>)"
    have sr: "sys_read f buf cap w =
                Some ((int (length got), got @ drop (length got) buf), w1)"
      using Cons.prems(1) Deliver by (simp add: sys_read_def w1_def got_def Let_def)
    have w1: "rd_script w1 f = rest" "wr_script w1 = wr_script w"
      "handshake_script w1 = handshake_script w"
      by (simp_all add: w1_def emit_def)
    have "read_while (-1) f buf cap w =
            Some ((int (length got), got @ drop (length got) buf), w1)"
      using sr by (subst read_while.simps) simp
    moreover have "0 < int (length got)" if "bs \<noteq> []" "0 < cap"
      using that by (simp add: got_def)
    ultimately show ?thesis
      using w1 Deliver by (auto simp: read_answers_def)
  qed
qed

text \<open>The script of the engine lets the handshake end well: steps that ask for more,
  then a step that reports success.\<close>

fun succeeds :: "engine_reply list \<Rightarrow> bool" where
  "succeeds [] = False"
| "succeeds (a # rest) =
     (reply_ret a = 0 \<or> (reply_ret a = PTLS_ERROR_HANDSHAKE_IN_PROGRESS \<and> succeeds rest))"

lemma ptls_handshake_step:
  "handshake_script w = a # rest \<Longrightarrow>
     \<exists>w1. ptls_handshake wbuf pin plen w =
             Some ((reply_ret a, buffer_push wbuf (reply_output a), reply_consumed a), w1) \<and>
       handshake_script w1 = rest \<and> wr_script w1 = wr_script w \<and> rd_script w1 = rd_script w"
  by (simp add: ptls_handshake_def emit_def)

lemma hs_loop_total:
  "handshake_script w = script \<Longrightarrow>
   \<exists>a \<in> set script. reply_ret a \<noteq> PTLS_ERROR_HANDSHAKE_IN_PROGRESS \<Longrightarrow>
   off wbuf + output_total script \<le> answers (wr_script w f) \<Longrightarrow>
   length script \<le> read_answers (rd_script w f) \<Longrightarrow>
     hs_loop f bufsz wbuf pin plen rret w \<noteq> None"
proof (induction script arbitrary: w wbuf pin plen rret)
  case Nil
  then show ?case by simp
next
  case (Cons a rest)
  define wbuf1 where "wbuf1 = buffer_push wbuf (reply_output a)"
  from ptls_handshake_step[OF Cons.prems(1)] obtain w1 where
    hs: "ptls_handshake wbuf pin plen w = Some ((reply_ret a, wbuf1, reply_consumed a), w1)"
    and w1: "handshake_script w1 = rest" "wr_script w1 = wr_script w" "rd_script w1 = rd_script w"
    unfolding wbuf1_def by blast
  have off1: "off wbuf1 = off wbuf + length (reply_output a)"
    by (simp add: wbuf1_def buffer_push_def)
  show ?case
  proof (cases "reply_ret a = PTLS_ERROR_HANDSHAKE_IN_PROGRESS")
    case False
    with hs show ?thesis by (subst hs_loop.simps) simp
  next
    case True
    with Cons.prems(2) have ex: "\<exists>a \<in> set rest. reply_ret a \<noteq> PTLS_ERROR_HANDSHAKE_IN_PROGRESS"
      by simp
    from Cons.prems(3) have out: "off wbuf1 + output_total rest \<le> answers (wr_script w1 f)"
      by (simp add: off1 w1 output_total_def)
    then have "off wbuf1 \<le> answers (wr_script w1 f)" by simp
    from write_all_total[OF this] obtain wa w2 where
      wa: "write_all f (base wbuf1) (off wbuf1) w1 = Some (wa, w2)"
      and an: "answers (wr_script w1 f) - off wbuf1 \<le> answers (wr_script w2 f)"
      by blast
    from write_all_writes_only[OF wa] w1
    have w2: "handshake_script w2 = rest" "rd_script w2 = rd_script w"
      by (simp_all add: writes_only_def)
    show ?thesis
    proof (cases "wa = 0")
      case False
      with hs True wa show ?thesis by (subst hs_loop.simps) simp
    next
      case wz: True
      from Cons.prems(4) w2 have "0 < read_answers (rd_script w2 f)" by simp
      from read_while_total[OF refl this, of pin bufsz] obtain rret1 pin1 w3 where
        rd: "read_while (-1) f pin bufsz w2 = Some ((rret1, pin1), w3)"
        and ran: "Suc (read_answers (rd_script w3 f)) = read_answers (rd_script w2 f)"
        and w3: "wr_script w3 = wr_script w2" "handshake_script w3 = handshake_script w2"
        by blast
      show ?thesis
      proof (cases "rret1 \<le> 0")
        case True
        with hs \<open>reply_ret a = PTLS_ERROR_HANDSHAKE_IN_PROGRESS\<close> wa wz rd show ?thesis
          by (subst hs_loop.simps) simp
      next
        case pos: False
        have "handshake_script w3 = rest" using w3 w2 by simp
        moreover have "off (wbuf1\<lparr>off := 0\<rparr>) + output_total rest \<le> answers (wr_script w3 f)"
          using out an w3 by simp
        moreover have "length rest \<le> read_answers (rd_script w3 f)"
          using Cons.prems(4) ran w2 by simp
        ultimately have
          "hs_loop f bufsz (wbuf1\<lparr>off := 0\<rparr>) pin1 (to_size_t rret1) rret1 w3 \<noteq> None"
          using Cons.IH[OF _ ex, of w3 "wbuf1\<lparr>off := 0\<rparr>" pin1 "to_size_t rret1" rret1] by blast
        with hs True wa wz rd pos show ?thesis
          by (subst hs_loop.simps) simp
      qed
    qed
  qed
qed

lemma hs_loop_succeeds:
  "handshake_script w = script \<Longrightarrow> succeeds script \<Longrightarrow>
   \<forall>a \<in> set (wr_script w f). benign a \<Longrightarrow>
   off wbuf + output_total script \<le> answers (wr_script w f) \<Longrightarrow>
   \<forall>a \<in> set (rd_script w f). good_read a \<Longrightarrow>
   length script \<le> read_answers (rd_script w f) \<Longrightarrow> 0 < bufsz \<Longrightarrow>
     \<exists>wbuf' buf' len' w'. hs_loop f bufsz wbuf pin plen rret w = Some ((0, wbuf', buf', len'), w')"
proof (induction script arbitrary: w wbuf pin plen rret)
  case Nil
  then show ?case by simp
next
  case (Cons a rest)
  define wbuf1 where "wbuf1 = buffer_push wbuf (reply_output a)"
  from ptls_handshake_step[OF Cons.prems(1)] obtain w1 where
    hs: "ptls_handshake wbuf pin plen w = Some ((reply_ret a, wbuf1, reply_consumed a), w1)"
    and w1: "handshake_script w1 = rest" "wr_script w1 = wr_script w" "rd_script w1 = rd_script w"
    unfolding wbuf1_def by blast
  have off1: "off wbuf1 = off wbuf + length (reply_output a)"
    by (simp add: wbuf1_def buffer_push_def)
  show ?case
  proof (cases "reply_ret a = PTLS_ERROR_HANDSHAKE_IN_PROGRESS")
    case False
    with Cons.prems(2) have ret: "reply_ret a = 0" by simp
    obtain res w' where fin: "hs_finish 0 wbuf1 pin (reply_consumed a) rret w1 = (res, w')"
      by (cases "hs_finish 0 wbuf1 pin (reply_consumed a) rret w1")
    then obtain wbuf' buf' len' where "res = (0, wbuf', buf', len')"
      by (auto simp: hs_finish_def Let_def)
    with hs False ret fin show ?thesis
      by (subst hs_loop.simps) simp
  next
    case True
    with Cons.prems(2) in_progress_not_success have sc: "succeeds rest" by simp
    from Cons.prems(4) have out: "off wbuf1 + output_total rest \<le> answers (wr_script w1 f)"
      by (simp add: off1 w1 output_total_def)
    then have le: "off wbuf1 \<le> answers (wr_script w1 f)" by simp
    from Cons.prems(3) w1 have ben: "\<forall>a \<in> set (wr_script w1 f). benign a" by simp
    from write_all_benign[OF ben le] obtain w2 where
      wa: "write_all f (base wbuf1) (off wbuf1) w1 = Some (0, w2)"
      and an: "answers (wr_script w1 f) - off wbuf1 \<le> answers (wr_script w2 f)"
      and ben2: "\<forall>a \<in> set (wr_script w2 f). benign a"
      by blast
    from write_all_writes_only[OF wa] w1
    have w2: "handshake_script w2 = rest" "rd_script w2 = rd_script w"
      by (simp_all add: writes_only_def)
    from Cons.prems(6) w2 have "0 < read_answers (rd_script w2 f)" by simp
    from read_while_total[OF refl this, of pin bufsz] Cons.prems(5,7) w2 obtain rret1 pin1 w3 where
      rd: "read_while (-1) f pin bufsz w2 = Some ((rret1, pin1), w3)"
      and ran: "Suc (read_answers (rd_script w3 f)) = read_answers (rd_script w2 f)"
      and w3: "wr_script w3 = wr_script w2" "handshake_script w3 = handshake_script w2"
      and pos: "0 < rret1" and good3: "\<forall>a \<in> set (rd_script w3 f). good_read a"
      by auto
    have np: "\<not> rret1 \<le> 0" using pos by simp
    have "handshake_script w3 = rest" using w3 w2 by simp
    moreover have "\<forall>a \<in> set (wr_script w3 f). benign a" using ben2 w3 by simp
    moreover have "off (wbuf1\<lparr>off := 0\<rparr>) + output_total rest \<le> answers (wr_script w3 f)"
      using out an w3 by simp
    moreover have "length rest \<le> read_answers (rd_script w3 f)"
      using Cons.prems(6) ran w2 by simp
    ultimately obtain wbuf' buf' len' w' where
      "hs_loop f bufsz (wbuf1\<lparr>off := 0\<rparr>) pin1 (to_size_t rret1) rret1 w3 =
         Some ((0, wbuf', buf', len'), w')"
      using Cons.IH[OF _ sc _ _ good3 _ Cons.prems(7),
              of "wbuf1\<lparr>off := 0\<rparr>" pin1 "to_size_t rret1" rret1]
      by blast
    with hs True wa rd np show ?thesis
      by (subst hs_loop.simps) simp
  qed
qed


text \<open>C3: \<open>run_handshake\<close> returns 0 exactly when the last handshake step of the engine
  reported success, and -1 otherwise, the last event then being the failed write, the
  failed read or the report of the engine's error. When the engine succeeded and its
  last step consumed no more than the last read of the socket delivered (nothing, when
  there was no read), the pending length reported is the number of bytes of that read
  that were not consumed, and the buffer starts with exactly those bytes, in order; when
  all were consumed the pending length is 0 and the buffer is as the read left it. The
  function returns whenever the engine, the writes and the reads have answers enough,
  and it returns 0, with the pending bytes as said, when the engine asks for more and
  then succeeds while every write and every read makes progress or is interrupted.\<close>

theorem handshake_leftover:
  "(run_handshake f wbuf buf bufsz w = Some ((r, wbuf', buf', len'), w') \<and>
    bufsz \<le> length buf \<longrightarrow>
      handshake_rets (new_events w w') \<noteq> [] \<and>
      (last (handshake_rets (new_events w w')) = 0 \<longrightarrow>
         r = 0 \<and>
         (final_consumed (new_events w w') \<le> length (final_read [] f (new_events w w')) \<longrightarrow>
            leftover (final_read [] f (new_events w w')) (final_consumed (new_events w w'))
              buf' len')) \<and>
      (last (handshake_rets (new_events w w')) \<noteq> 0 \<longrightarrow>
         r = -1 \<and> hs_abort (last (new_events w w')))) \<and>
   ((\<exists>a \<in> set (handshake_script w). reply_ret a \<noteq> PTLS_ERROR_HANDSHAKE_IN_PROGRESS) \<and>
    off wbuf + output_total (handshake_script w) \<le> answers (wr_script w f) \<and>
    length (handshake_script w) \<le> read_answers (rd_script w f) \<longrightarrow>
      run_handshake f wbuf buf bufsz w \<noteq> None) \<and>
   (succeeds (handshake_script w) \<and> (\<forall>a \<in> set (wr_script w f). benign a) \<and>
    off wbuf + output_total (handshake_script w) \<le> answers (wr_script w f) \<and>
    (\<forall>a \<in> set (rd_script w f). good_read a) \<and>
    length (handshake_script w) \<le> read_answers (rd_script w f) \<and>
    0 < bufsz \<and> bufsz \<le> length buf \<longrightarrow>
      (\<exists>wb b n v. run_handshake f wbuf buf bufsz w = Some ((0, wb, b, n), v) \<and>
         last (handshake_rets (new_events w v)) = 0 \<and>
         (final_consumed (new_events w v) \<le> length (final_read [] f (new_events w v)) \<longrightarrow>
            leftover (final_read [] f (new_events w v)) (final_consumed (new_events w v)) b n)))"
proof -
  have status: "handshake_rets (new_events w w') \<noteq> [] \<and>
      (last (handshake_rets (new_events w w')) = 0 \<longrightarrow>
         r = 0 \<and>
         (final_consumed (new_events w w') \<le> length (final_read [] f (new_events w w')) \<longrightarrow>
            leftover (final_read [] f (new_events w w')) (final_consumed (new_events w w'))
              buf' len')) \<and>
      (last (handshake_rets (new_events w w')) \<noteq> 0 \<longrightarrow>
         r = -1 \<and> hs_abort (last (new_events w w')))"
    if run: "hs_loop f bufsz wbuf buf 0 0 w = Some ((r, wbuf', buf', len'), w')"
      and len: "bufsz \<le> length buf"
    for r wbuf' buf' len' w'
  proof -
    from hs_loop_status[OF run]
    have rets: "handshake_rets (new_events w w') \<noteq> []"
      and cases: "r = 0 \<and> last (handshake_rets (new_events w w')) = 0 \<or>
        r = -1 \<and> last (handshake_rets (new_events w w')) \<noteq> 0 \<and>
        hs_abort (last (new_events w w'))"
      by blast+
    have left: "final_consumed (new_events w w') \<le> length (final_read [] f (new_events w w')) \<longrightarrow>
        leftover (final_read [] f (new_events w w')) (final_consumed (new_events w w')) buf' len'"
      if "r = 0"
      using hs_loop_leftover[of f bufsz wbuf buf 0 0 w wbuf' buf' len' w'] run len that
      by simp
    from rets cases left show ?thesis by auto
  qed
  have total: "hs_loop f bufsz wbuf buf 0 0 w \<noteq> None"
    if "\<exists>a \<in> set (handshake_script w). reply_ret a \<noteq> PTLS_ERROR_HANDSHAKE_IN_PROGRESS"
      "off wbuf + output_total (handshake_script w) \<le> answers (wr_script w f)"
      "length (handshake_script w) \<le> read_answers (rd_script w f)"
    using hs_loop_total[OF refl that] .
  have good: "\<exists>wb b n v. hs_loop f bufsz wbuf buf 0 0 w = Some ((0, wb, b, n), v) \<and>
         last (handshake_rets (new_events w v)) = 0 \<and>
         (final_consumed (new_events w v) \<le> length (final_read [] f (new_events w v)) \<longrightarrow>
            leftover (final_read [] f (new_events w v)) (final_consumed (new_events w v)) b n)"
    if sc: "succeeds (handshake_script w)" and ben: "\<forall>a \<in> set (wr_script w f). benign a"
      and out: "off wbuf + output_total (handshake_script w) \<le> answers (wr_script w f)"
      and rd: "\<forall>a \<in> set (rd_script w f). good_read a"
      and ra: "length (handshake_script w) \<le> read_answers (rd_script w f)"
      and pos: "0 < bufsz" and len: "bufsz \<le> length buf"
  proof -
    from hs_loop_succeeds[OF refl sc ben out rd ra pos, of buf 0 0] obtain wb b n v where
      run: "hs_loop f bufsz wbuf buf 0 0 w = Some ((0, wb, b, n), v)"
      by blast
    from status[OF run len] in_progress_not_success run show ?thesis by auto
  qed
  show ?thesis
    unfolding run_handshake_def
  proof (rule conjI[OF _ conjI]; rule impI)
    assume "hs_loop f bufsz wbuf buf 0 0 w = Some ((r, wbuf', buf', len'), w') \<and>
      bufsz \<le> length buf"
    then show "handshake_rets (new_events w w') \<noteq> [] \<and>
      (last (handshake_rets (new_events w w')) = 0 \<longrightarrow>
         r = 0 \<and>
         (final_consumed (new_events w w') \<le> length (final_read [] f (new_events w w')) \<longrightarrow>
            leftover (final_read [] f (new_events w w')) (final_consumed (new_events w w'))
              buf' len')) \<and>
      (last (handshake_rets (new_events w w')) \<noteq> 0 \<longrightarrow>
         r = -1 \<and> hs_abort (last (new_events w w')))"
      using status by blast
  next
    assume "(\<exists>a \<in> set (handshake_script w). reply_ret a \<noteq> PTLS_ERROR_HANDSHAKE_IN_PROGRESS) \<and>
      off wbuf + output_total (handshake_script w) \<le> answers (wr_script w f) \<and>
      length (handshake_script w) \<le> read_answers (rd_script w f)"
    then show "hs_loop f bufsz wbuf buf 0 0 w \<noteq> None" using total by blast
  next
    assume "succeeds (handshake_script w) \<and> (\<forall>a \<in> set (wr_script w f). benign a) \<and>
      off wbuf + output_total (handshake_script w) \<le> answers (wr_script w f) \<and>
      (\<forall>a \<in> set (rd_script w f). good_read a) \<and>
      length (handshake_script w) \<le> read_answers (rd_script w f) \<and>
      0 < bufsz \<and> bufsz \<le> length buf"
    then show "\<exists>wb b n v. hs_loop f bufsz wbuf buf 0 0 w = Some ((0, wb, b, n), v) \<and>
         last (handshake_rets (new_events w v)) = 0 \<and>
         (final_consumed (new_events w v) \<le> length (final_read [] f (new_events w v)) \<longrightarrow>
            leftover (final_read [] f (new_events w v)) (final_consumed (new_events w v)) b n)"
      using good by blast
  qed
qed

text \<open>A handshake of two steps: the first sends two bytes and asks for more, the socket
  delivers five bytes, and the second succeeds after consuming \<open>c\<close> of them.\<close>

definition early_data :: "nat \<Rightarrow> world" where
  "early_data c =
     idle\<lparr>handshake_script := [reply PTLS_ERROR_HANDSHAKE_IN_PROGRESS 0 [1, 2], reply 0 c [9]],
          wr_script := (\<lambda>_. [])(3 := [Accept 10, Accept 10, Accept 10]),
          rd_script := (\<lambda>_. [])(3 := [Deliver [21, 22, 23, 24, 25], Deliver [30]])\<rparr>"

text \<open>A handshake that the engine refuses at its second step, after the same exchange.\<close>

definition refused :: world where
  "refused =
     idle\<lparr>handshake_script := [reply PTLS_ERROR_HANDSHAKE_IN_PROGRESS 0 [1, 2], reply 40 1 []],
          wr_script := (\<lambda>_. [])(3 := [Accept 10, Accept 10]),
          rd_script := (\<lambda>_. [])(3 := [Deliver [21, 22, 23, 24, 25], Deliver [30]])\<rparr>"

text \<open>What a run of \<open>run_handshake\<close> is seen to do: the return value, the pending length
  and the first five bytes of the buffer, and the events.\<close>

definition handshake_outcome ::
  "world \<Rightarrow> ((int \<times> ptls_buffer \<times> byte list \<times> nat) \<times> world) option \<Rightarrow>
     (int \<times> nat \<times> byte list \<times> event list) option" where
  "handshake_outcome w res =
     map_option (\<lambda>((r, wb, b, n), w'). (r, n, take 5 b, new_events w w')) res"

lemma handshake_outcome_SomeD:
  "handshake_outcome w res = Some (r, n, bs, evs) \<Longrightarrow>
     \<exists>wb b w'. res = Some ((r, wb, b, n), w') \<and> take 5 b = bs \<and> new_events w w' = evs"
  by (auto simp: handshake_outcome_def)

lemma early_data_run:
  "handshake_outcome (early_data 3)
     (run_handshake 3 (ptls_buffer_init (replicate 1024 0)) (replicate 1024 0) 1024 (early_data 3)) =
     Some (0, 2, [24, 25, 23, 24, 25],
           [PtlsHandshake [] PTLS_ERROR_HANDSHAKE_IN_PROGRESS 0, SysWrite 3 [1, 2] 2 0,
            SysRead 3 [21, 22, 23, 24, 25] 5 0, PtlsHandshake [21, 22, 23, 24, 25] 0 3])"
  by code_simp

lemma all_consumed_run:
  "handshake_outcome (early_data 5)
     (run_handshake 3 (ptls_buffer_init (replicate 1024 0)) (replicate 1024 0) 1024 (early_data 5)) =
     Some (0, 0, [21, 22, 23, 24, 25],
           [PtlsHandshake [] PTLS_ERROR_HANDSHAKE_IN_PROGRESS 0, SysWrite 3 [1, 2] 2 0,
            SysRead 3 [21, 22, 23, 24, 25] 5 0, PtlsHandshake [21, 22, 23, 24, 25] 0 5])"
  by code_simp

lemma refused_run:
  "handshake_outcome refused
     (run_handshake 3 (ptls_buffer_init (replicate 1024 0)) (replicate 1024 0) 1024 refused) =
     Some (-1, 1, [21, 22, 23, 24, 25],
           [PtlsHandshake [] PTLS_ERROR_HANDSHAKE_IN_PROGRESS 0, SysWrite 3 [1, 2] 2 0,
            SysRead 3 [21, 22, 23, 24, 25] 5 0, PtlsHandshake [21, 22, 23, 24, 25] 40 1,
            Stderr ''ptls_handshake'' 40])"
  by code_simp

lemma early_data_conforms:
  "succeeds (handshake_script (early_data c))"
  "\<forall>a \<in> set (wr_script (early_data c) 3). benign a"
  "off (ptls_buffer_init (replicate 1024 0)) + output_total (handshake_script (early_data c))
     \<le> answers (wr_script (early_data c) 3)"
  "\<forall>a \<in> set (rd_script (early_data c) 3). good_read a"
  "length (handshake_script (early_data c)) \<le> read_answers (rd_script (early_data c) 3)"
  by (simp_all add: early_data_def idle_def reply_def ptls_buffer_init_def output_total_def
        answers_def read_answers_def)

theorem handshake_leftover_witness:
  "(\<exists>wb b w'. run_handshake 3 (ptls_buffer_init (replicate 1024 0)) (replicate 1024 0) 1024
                 (early_data 3) = Some ((0, wb, b, 2), w') \<and>
      last (handshake_rets (new_events (early_data 3) w')) = 0 \<and>
      final_read [] 3 (new_events (early_data 3) w') = [21, 22, 23, 24, 25] \<and>
      final_consumed (new_events (early_data 3) w') = 3 \<and>
      take 2 b = [24, 25]) \<and>
   (\<exists>wb b w'. run_handshake 3 (ptls_buffer_init (replicate 1024 0)) (replicate 1024 0) 1024
                 (early_data 5) = Some ((0, wb, b, 0), w') \<and>
      last (handshake_rets (new_events (early_data 5) w')) = 0 \<and>
      final_read [] 3 (new_events (early_data 5) w') = [21, 22, 23, 24, 25] \<and>
      final_consumed (new_events (early_data 5) w') = 5 \<and>
      take 5 b = [21, 22, 23, 24, 25]) \<and>
   (\<exists>wb b n w'. run_handshake 3 (ptls_buffer_init (replicate 1024 0)) (replicate 1024 0) 1024
                 refused = Some ((-1, wb, b, n), w') \<and>
      last (handshake_rets (new_events refused w')) = 40 \<and>
      last (new_events refused w') = Stderr ''ptls_handshake'' 40 \<and>
      hs_abort (last (new_events refused w')))"
proof -
  let ?b = "ptls_buffer_init (replicate 1024 0)" and ?r = "replicate 1024 (0 :: byte)"
  have sz: "0 < (1024 :: nat)" "1024 \<le> length ?r" by simp_all
  from handshake_leftover[where f = 3 and wbuf = ?b and buf = ?r and bufsz = 1024
         and w = "early_data 3"] early_data_conforms[of 3] sz
  obtain wb1 b1 n1 w1 where
    run1: "run_handshake 3 ?b ?r 1024 (early_data 3) = Some ((0, wb1, b1, n1), w1)"
    and ok1: "last (handshake_rets (new_events (early_data 3) w1)) = 0"
    and left1: "final_consumed (new_events (early_data 3) w1)
                  \<le> length (final_read [] 3 (new_events (early_data 3) w1)) \<longrightarrow>
                leftover (final_read [] 3 (new_events (early_data 3) w1))
                  (final_consumed (new_events (early_data 3) w1)) b1 n1"
    by blast
  from handshake_outcome_SomeD[OF early_data_run] run1
  have n1: "n1 = 2" and ev1: "new_events (early_data 3) w1 =
           [PtlsHandshake [] PTLS_ERROR_HANDSHAKE_IN_PROGRESS 0, SysWrite 3 [1, 2] 2 0,
            SysRead 3 [21, 22, 23, 24, 25] 5 0, PtlsHandshake [21, 22, 23, 24, 25] 0 3]"
    by auto
  have f1: "final_read [] 3 (new_events (early_data 3) w1) = [21, 22, 23, 24, 25]"
    "final_consumed (new_events (early_data 3) w1) = 3"
    by (simp_all add: ev1 final_read_def final_consumed_def)
  from left1 have "leftover [21, 22, 23, 24, 25] 3 b1 2"
    unfolding f1 n1 by simp
  then have l1: "take 2 b1 = [24, 25]" by (simp add: leftover_def)
  from handshake_outcome_SomeD[OF all_consumed_run] obtain wb2 b2 w2 where
    run2: "run_handshake 3 ?b ?r 1024 (early_data 5) = Some ((0, wb2, b2, 0), w2)"
    and ev2: "new_events (early_data 5) w2 =
           [PtlsHandshake [] PTLS_ERROR_HANDSHAKE_IN_PROGRESS 0, SysWrite 3 [1, 2] 2 0,
            SysRead 3 [21, 22, 23, 24, 25] 5 0, PtlsHandshake [21, 22, 23, 24, 25] 0 5]"
    by blast
  have f2: "final_read [] 3 (new_events (early_data 5) w2) = [21, 22, 23, 24, 25]"
    "final_consumed (new_events (early_data 5) w2) = 5"
    by (simp_all add: ev2 final_read_def final_consumed_def)
  have ok2: "last (handshake_rets (new_events (early_data 5) w2)) = 0"
    by (simp add: ev2)
  from handshake_leftover[of 3 ?b ?r 1024 "early_data 5" 0 wb2 b2 0 w2] run2 f2 ok2
  have "leftover [21, 22, 23, 24, 25] 5 b2 0" by simp
  moreover have five: "length [21, 22, 23, 24, 25 :: byte] = 5" by simp
  ultimately have l2: "take 5 b2 = [21, 22, 23, 24, 25]"
    unfolding leftover_def five by blast
  from handshake_outcome_SomeD[OF refused_run] obtain wb3 b3 w3 where
    run3: "run_handshake 3 ?b ?r 1024 refused = Some ((-1, wb3, b3, 1), w3)"
    and ev3: "new_events refused w3 =
           [PtlsHandshake [] PTLS_ERROR_HANDSHAKE_IN_PROGRESS 0, SysWrite 3 [1, 2] 2 0,
            SysRead 3 [21, 22, 23, 24, 25] 5 0, PtlsHandshake [21, 22, 23, 24, 25] 40 1,
            Stderr ''ptls_handshake'' 40]"
    by blast
  have r3: "last (handshake_rets (new_events refused w3)) = 40"
    "last (new_events refused w3) = Stderr ''ptls_handshake'' 40"
    by (simp_all add: ev3)
  from handshake_leftover[of 3 ?b ?r 1024 refused "-1" wb3 b3 1 w3] run3 r3(1)
  have ab: "hs_abort (last (new_events refused w3))" by simp
  from run1[unfolded n1] ok1 f1 l1 run2 ok2 f2 l2 run3 r3 ab show ?thesis by blast
qed

section \<open>Every wake-up of the streaming loop\<close>

text \<open>The events after which a branch of the loop takes \<open>goto Exit\<close>: a sealing call
  that reported an error or a write that was given up on, in the branch of standard
  input; a read that returned nothing or failed, or what stops the pump, in the branch of
  the socket.\<close>

fun send_failed :: "event \<Rightarrow> bool" where
  "send_failed (PtlsSend inp n r) = (r \<noteq> 0)"
| "send_failed ev = False"

fun failed_read :: "event \<Rightarrow> bool" where
  "failed_read (SysRead g bs r e) = (r \<le> 0)"
| "failed_read ev = False"

definition stdin_left :: "event list \<Rightarrow> bool" where
  "stdin_left ins = list_ex (\<lambda>e. send_failed e \<or> fatal_write e) ins"

definition socket_left :: "event list \<Rightarrow> bool" where
  "socket_left socks = list_ex (\<lambda>e. failed_read e \<or> pump_stopper e) socks"

text \<open>The events of the branch of standard input, from the sealing call on, split from
  the events that follow them: the call and the writes to the socket, or the call and the
  report of its error.\<close>

fun sealed :: "fd \<Rightarrow> event list \<Rightarrow> (event list \<times> event list) option" where
  "sealed f (PtlsSend inp n r # rest) =
     (if r = 0
      then Some (PtlsSend inp n r # takeWhile (write_on f) rest, dropWhile (write_on f) rest)
      else if take 1 rest = [Stderr ''ptls_send'' r]
      then Some ([PtlsSend inp n r, Stderr ''ptls_send'' r], drop 1 rest)
      else None)"
| "sealed f evs = None"

text \<open>The events of the branch of standard input at the head of \<open>evs\<close>, with the events
  after them: at least one read of descriptor 0, then the sealing call and what follows
  it.\<close>

definition input_part :: "fd \<Rightarrow> event list \<Rightarrow> (event list \<times> event list) option" where
  "input_part f evs =
     (if takeWhile (read_on 0) evs = [] then None
      else map_option (\<lambda>(ins, rest). (takeWhile (read_on 0) evs @ ins, rest))
             (sealed f (dropWhile (read_on 0) evs)))"

text \<open>The events of the branch of the socket: at least one read of the socket, then
  events of the pump only.\<close>

definition socket_part :: "fd \<Rightarrow> event list \<Rightarrow> bool" where
  "socket_part f evs \<longleftrightarrow>
     takeWhile (read_on f) evs \<noteq> [] \<and> list_all pump_event (dropWhile (read_on f) evs)"

text \<open>The events of one turn of the loop that ends with \<open>goto Exit\<close> (\<open>left\<close>) or goes on:
  one \<open>select\<close> on the descriptors up to the socket; nothing more when it returns no
  positive count; otherwise the branch of standard input when descriptor 0 is in the
  result, and after it the branch of the socket when the socket is in the result and the
  first branch did not leave.\<close>

fun wakeup :: "fd \<Rightarrow> bool \<Rightarrow> event list \<Rightarrow> bool" where
  "wakeup f left (SysSelect n sret fds # rest) =
     (n = f + 1 \<and>
      (if sret \<le> 0 then rest = [] \<and> \<not> left
       else
         (case (if 0 \<in> set fds then input_part f rest else Some ([], rest)) of
            None \<Rightarrow> False
          | Some (ins, socks) \<Rightarrow>
              (if f \<in> set fds \<and> \<not> stdin_left ins then socket_part f socks else socks = []) \<and>
              (left \<longleftrightarrow> stdin_left ins \<or> socket_left socks))))"
| "wakeup f left evs = False"

lemma read_while_retried:
  "read_while v f buf cap w = Some ((r, buf'), w') \<Longrightarrow>
     \<exists>pre bs e. new_events w w' = pre @ [SysRead f bs r e] \<and>
       (\<forall>x \<in> set pre. \<exists>bs' e'. x = SysRead f bs' v e')"
proof (induction v f buf cap w rule: read_while.induct)
  case (1 v f buf cap w)
  from "1.prems" obtain rret buf1 w1 where sr: "sys_read f buf cap w = Some ((rret, buf1), w1)"
    by (subst (asm) read_while.simps) (auto split: option.splits)
  then obtain bs where ev1: "new_events w w1 = [SysRead f bs rret (errno w1)]"
    by (auto simp: sys_read_def emit_def Let_def new_events_def split: list.splits rresult.splits)
  show ?case
  proof (cases "rret = v \<and> errno w1 = EINTR")
    case True
    with "1.prems" sr have rec: "read_while v f buf1 cap w1 = Some ((r, buf'), w')"
      by (subst (asm) read_while.simps) simp
    have split: "new_events w w' = new_events w w1 @ new_events w1 w'"
      using sys_read_advances[OF sr] read_while_advances[OF rec] by (simp add: new_events_trans)
    from "1.IH"[OF sr refl refl True rec] obtain pre bs' e where
      rest: "new_events w1 w' = pre @ [SysRead f bs' r e]"
      and pre: "\<forall>x \<in> set pre. \<exists>bs' e'. x = SysRead f bs' v e'"
      by blast
    have "new_events w w' = (SysRead f bs v (errno w1) # pre) @ [SysRead f bs' r e]"
      using split ev1 rest True by simp
    moreover have "\<forall>x \<in> set (SysRead f bs v (errno w1) # pre). \<exists>bs' e'. x = SysRead f bs' v e'"
      using pre by simp
    ultimately show ?thesis by blast
  next
    case False
    with "1.prems" sr have "w' = w1" "r = rret"
      by (subst (asm) read_while.simps; auto)+
    with ev1 have "new_events w w' = [] @ [SysRead f bs r (errno w1)]" by simp
    then show ?thesis by fastforce
  qed
qed

text \<open>The events of the branch of standard input, and whether it leaves.\<close>

lemma stdin_branch_events:
  assumes "stdin_branch f wbuf rbuf w = Some (fl, w')"
  shows "\<exists>rds inp n r rest. new_events w w' = rds @ PtlsSend inp n r # rest \<and> rds \<noteq> [] \<and>
           (\<forall>e \<in> set rds. read_on 0 e) \<and>
           (if r = 0
            then (\<forall>e \<in> set rest. write_on f e) \<and>
                 (fl = Leave () \<longleftrightarrow> (\<exists>e \<in> set rest. fatal_write e))
            else rest = [Stderr ''ptls_send'' r] \<and> fl = Leave ())"
proof -
  from assms obtain rret rbuf1 w1 where rd: "read_while 1 0 rbuf 1024 w = Some ((rret, rbuf1), w1)"
    by (auto simp: stdin_branch_def split: option.splits)
  with assms obtain ret wbuf1 w2 where
    sn: "ptls_send wbuf rbuf1 (to_size_t rret) w1 = Some ((ret, wbuf1), w2)"
    by (auto simp: stdin_branch_def split: option.splits)
  from sn obtain inp n where ev2: "new_events w1 w2 = [PtlsSend inp n ret]"
    by (auto simp: ptls_send_def emit_def new_events_def split: list.splits)
  note a1 = read_while_advances[OF rd] and a2 = ptls_send_advances[OF sn]
  note e1 = read_while_events[OF rd]
  show ?thesis
  proof (cases "ret = 0")
    case False
    with assms rd sn have fl: "fl = Leave ()" and w': "w' = emit (Stderr ''ptls_send'' ret) w2"
      by (auto simp: stdin_branch_def)
    have a3: "advances w2 w'" unfolding w' by (rule emit_advances) simp
    have "new_events w w' = new_events w w1 @ new_events w1 w2 @ new_events w2 w'"
      by (simp add: new_events_trans[OF a1 advances_trans[OF a2 a3]] new_events_trans[OF a2 a3])
    then have "new_events w w' =
        new_events w w1 @ PtlsSend inp n ret # [Stderr ''ptls_send'' ret]"
      by (simp add: ev2 w' new_events_emit)
    with e1 False fl have c: "new_events w w' =
        new_events w w1 @ PtlsSend inp n ret # [Stderr ''ptls_send'' ret] \<and>
      new_events w w1 \<noteq> [] \<and> (\<forall>e \<in> set (new_events w w1). read_on 0 e) \<and>
      (if ret = 0
       then (\<forall>e \<in> set [Stderr ''ptls_send'' ret]. write_on f e) \<and>
            (fl = Leave () \<longleftrightarrow> (\<exists>e \<in> set [Stderr ''ptls_send'' ret]. fatal_write e))
       else [Stderr ''ptls_send'' ret] = [Stderr ''ptls_send'' ret] \<and> fl = Leave ())"
      by simp
    show ?thesis
      by (rule exI[where x = "new_events w w1"], rule exI[where x = inp], rule exI[where x = n],
          rule exI[where x = ret], rule exI[where x = "[Stderr ''ptls_send'' ret]"], rule c)
  next
    case True
    with assms rd sn obtain wa where wa: "write_all f (base wbuf1) (off wbuf1) w2 = Some (wa, w')"
      and fl: "fl = Leave () \<longleftrightarrow> wa \<noteq> 0"
      by (auto simp: stdin_branch_def split: option.splits if_splits)
    note a3 = write_all_advances[OF wa]
    have split: "new_events w w' = new_events w w1 @ PtlsSend inp n ret # new_events w2 w'"
      by (simp add: new_events_trans[OF a1 advances_trans[OF a2 a3]] new_events_trans[OF a2 a3]
            ev2)
    from write_all_status[OF wa] fl
    have "fl = Leave () \<longleftrightarrow> (\<exists>e \<in> set (new_events w2 w'). fatal_write e)"
      by (auto intro: last_in_set)
    with split e1 write_all_writes[OF wa] True have c: "new_events w w' =
        new_events w w1 @ PtlsSend inp n ret # new_events w2 w' \<and>
      new_events w w1 \<noteq> [] \<and> (\<forall>e \<in> set (new_events w w1). read_on 0 e) \<and>
      (if ret = 0
       then (\<forall>e \<in> set (new_events w2 w'). write_on f e) \<and>
            (fl = Leave () \<longleftrightarrow> (\<exists>e \<in> set (new_events w2 w'). fatal_write e))
       else new_events w2 w' = [Stderr ''ptls_send'' ret] \<and> fl = Leave ())"
      by simp
    show ?thesis
      by (rule exI[where x = "new_events w w1"], rule exI[where x = inp], rule exI[where x = n],
          rule exI[where x = ret], rule exI[where x = "new_events w2 w'"], rule c)
  qed
qed

lemma takeWhile_reads:
  "\<forall>e \<in> set rds. read_on g e \<Longrightarrow> \<not> read_on g x \<Longrightarrow>
     takeWhile (read_on g) (rds @ x # rest) = rds \<and> dropWhile (read_on g) (rds @ x # rest) = x # rest"
  by (induction rds) auto

lemma takeWhile_writes:
  "\<forall>e \<in> set wrs. write_on g e \<Longrightarrow> rest = [] \<or> \<not> write_on g (hd rest) \<Longrightarrow>
     takeWhile (write_on g) (wrs @ rest) = wrs \<and> dropWhile (write_on g) (wrs @ rest) = rest"
proof (induction wrs)
  case Nil
  then show ?case by (cases rest) auto
next
  case (Cons x wrs)
  then show ?case by simp
qed

text \<open>The events of the branch of standard input are found again at the head of the events
  of the turn, whatever the socket branch adds after them.\<close>

lemma stdin_branch_part:
  assumes "stdin_branch f wbuf rbuf w = Some (fl, w')"
    and "socks = [] \<or> \<not> write_on f (hd socks)"
    and "fl = Leave () \<longrightarrow> socks = []"
  shows "input_part f (new_events w w' @ socks) = Some (new_events w w', socks) \<and>
         (fl = Leave () \<longleftrightarrow> stdin_left (new_events w w'))"
proof -
  from stdin_branch_events[OF assms(1)] obtain rds inp n r rest where
    ev: "new_events w w' = rds @ PtlsSend inp n r # rest" and ne: "rds \<noteq> []"
    and rds: "\<forall>e \<in> set rds. read_on 0 e"
    and tail: "if r = 0
            then (\<forall>e \<in> set rest. write_on f e) \<and>
                 (fl = Leave () \<longleftrightarrow> (\<exists>e \<in> set rest. fatal_write e))
            else rest = [Stderr ''ptls_send'' r] \<and> fl = Leave ()"
    by blast
  have tw: "takeWhile (read_on 0) (new_events w w' @ socks) = rds"
    "dropWhile (read_on 0) (new_events w w' @ socks) = PtlsSend inp n r # rest @ socks"
    using takeWhile_reads[OF rds, of "PtlsSend inp n r" "rest @ socks"] by (simp_all add: ev)
  have nr: "\<forall>e \<in> set rds. \<not> send_failed e \<and> \<not> fatal_write e"
  proof
    fix e assume "e \<in> set rds"
    with rds have "read_on 0 e" by blast
    then show "\<not> send_failed e \<and> \<not> fatal_write e" by (cases e) auto
  qed
  show ?thesis
  proof (cases "r = 0")
    case True
    with tail have wrs: "\<forall>e \<in> set rest. write_on f e"
      and fl: "fl = Leave () \<longleftrightarrow> (\<exists>e \<in> set rest. fatal_write e)"
      by simp_all
    from takeWhile_writes[OF wrs assms(2)] True
    have "sealed f (PtlsSend inp n r # rest @ socks) = Some (PtlsSend inp n r # rest, socks)"
      by simp
    then have part: "input_part f (new_events w w' @ socks) = Some (new_events w w', socks)"
      unfolding input_part_def tw using ne by (simp add: ev)
    have "stdin_left (new_events w w') \<longleftrightarrow> (\<exists>e \<in> set rest. fatal_write e)"
    proof -
      have "\<forall>e \<in> set rest. \<not> send_failed e"
      proof
        fix e assume "e \<in> set rest"
        with wrs have "write_on f e" by blast
        then show "\<not> send_failed e" by (cases e) auto
      qed
      with nr True show ?thesis
        by (auto simp: stdin_left_def ev list_ex_iff)
    qed
    with part fl show ?thesis by simp
  next
    case False
    with tail have rest: "rest = [Stderr ''ptls_send'' r]" and fl: "fl = Leave ()"
      by simp_all
    with assms(3) have socks: "socks = []" by simp
    have "sealed f (PtlsSend inp n r # rest @ socks) = Some (PtlsSend inp n r # rest, socks)"
      using False rest socks by simp
    then have part: "input_part f (new_events w w' @ socks) = Some (new_events w w', socks)"
      unfolding input_part_def tw using ne by (simp add: ev)
    have "stdin_left (new_events w w')"
      using False by (simp add: stdin_left_def ev)
    with part fl show ?thesis by simp
  qed
qed

text \<open>The events of the branch of the socket, and whether it leaves.\<close>

lemma pump_events_no_reads:
  assumes "\<forall>e \<in> set evs. pump_event e" and "\<forall>e \<in> set rds. read_on g e"
  shows "takeWhile (read_on g) (rds @ evs) = rds \<and> dropWhile (read_on g) (rds @ evs) = evs"
proof (cases evs)
  case Nil
  with assms(2) show ?thesis by simp
next
  case (Cons x rest)
  with assms(1) have "pump_event x" by simp
  then have "\<not> read_on g x" by (cases x) auto
  from takeWhile_reads[OF assms(2) this, of rest] Cons show ?thesis by simp
qed

lemma socket_branch_part:
  assumes "socket_branch f wbuf rbuf w = Some (fl, w')"
  shows "socket_part f (new_events w w') \<and>
         (\<exists>g bs r e rest. new_events w w' = SysRead g bs r e # rest) \<and>
         (fl = Leave () \<longleftrightarrow> socket_left (new_events w w'))"
proof -
  from assms obtain rret rbuf1 w1 where rd: "read_while 1 f rbuf 1024 w = Some ((rret, rbuf1), w1)"
    by (auto simp: socket_branch_def split: option.splits)
  from read_while_retried[OF rd] obtain pre bs e where
    e1: "new_events w w1 = pre @ [SysRead f bs rret e]"
    and pre: "\<forall>x \<in> set pre. \<exists>bs' e'. x = SysRead f bs' 1 e'"
    by blast
  have rds: "\<forall>x \<in> set (new_events w w1). read_on f x"
    using pre by (auto simp: e1)
  have hd: "\<exists>g bs r e rest. new_events w w1 @ more = SysRead g bs r e # rest" for more
    using pre by (cases pre) (auto simp: e1)
  have fr: "list_ex (\<lambda>e. failed_read e \<or> pump_stopper e) (new_events w w1) \<longleftrightarrow> rret \<le> 0"
    using pre by (auto simp: e1 list_ex_iff pump_stopper_def)
  show ?thesis
  proof (cases "rret \<le> 0")
    case True
    with assms rd have w': "w' = w1" and fl: "fl = Leave ()"
      by (simp_all add: socket_branch_def)
    have "takeWhile (read_on f) (new_events w w1) = new_events w w1"
      "dropWhile (read_on f) (new_events w w1) = []"
      using rds by simp_all
    then have "socket_part f (new_events w w1)"
      by (simp add: socket_part_def e1)
    with hd[of "[]"] fr True fl show ?thesis
      by (simp add: w' socket_left_def)
  next
    case False
    with assms rd obtain r where dp: "decrypt_and_print rbuf1 (to_size_t rret) w1 = Some (r, w')"
      and fl: "fl = Leave () \<longleftrightarrow> r \<noteq> 0"
      by (auto simp: socket_branch_def split: option.splits if_splits)
    have split: "new_events w w' = new_events w w1 @ new_events w1 w'"
      using read_while_advances[OF rd] decrypt_and_print_advances[OF dp] by (rule new_events_trans)
    have pump: "\<forall>e \<in> set (new_events w1 w'). pump_event e"
      using dp unfolding decrypt_and_print_def by (rule dp_loop_events)
    from pump_events_no_reads[OF pump rds]
    have tw: "takeWhile (read_on f) (new_events w w') = new_events w w1"
      "dropWhile (read_on f) (new_events w w') = new_events w1 w'"
      by (simp_all add: split)
    have part: "socket_part f (new_events w w')"
      using pump by (simp add: socket_part_def tw e1 list_all_iff)
    have nf: "\<forall>e \<in> set (new_events w1 w'). \<not> failed_read e"
    proof
      fix e assume "e \<in> set (new_events w1 w')"
      with pump have "pump_event e" by blast
      then show "\<not> failed_read e" by (cases e) auto
    qed
    from dp_loop_status[OF dp[unfolded decrypt_and_print_def]] fl
    have "fl = Leave () \<longleftrightarrow> (\<exists>e \<in> set (new_events w1 w'). pump_stopper e)"
      by auto
    with nf fr False have "fl = Leave () \<longleftrightarrow> socket_left (new_events w w')"
      by (auto simp: socket_left_def split list_ex_iff)
    with part hd[of "new_events w1 w'"] show ?thesis
      by (simp add: split)
  qed
qed


text \<open>Every turn of the loop that returns is a wake-up as described, whatever \<open>select\<close>
  reported.\<close>

lemma stream_body_wakeup:
  assumes "stream_body f wbuf rbuf w = Some (fl, w')"
  shows "wakeup f (fl = Leave ()) (new_events w w')"
proof -
  from assms obtain sret fds w1 where sl: "sys_select (f + 1) [0, f] w = Some ((sret, fds), w1)"
    by (auto simp: stream_body_def split: option.splits)
  note a0 = sys_select_advances[OF sl, THEN conjunct1]
  note e0 = sys_select_events[OF sl]
  show ?thesis
  proof (cases "sret \<le> 0")
    case True
    with assms sl have "w' = w1" "fl = Again (wbuf, rbuf)"
      by (simp_all add: stream_body_def)
    with e0 True show ?thesis by simp
  next
    case pos: False
    define first where
      "first = (if 0 \<in> set fds then stdin_branch f wbuf rbuf w1
                else Some (Again (wbuf, rbuf), w1))"
    from assms sl pos obtain fl1 w2 where fst: "first = Some (fl1, w2)"
      by (auto simp: stream_body_def first_def split: option.splits if_splits)
    have a1: "advances w1 w2"
      using fst by (auto simp: first_def advances_refl split: if_splits dest: stdin_branch_advances)
    have rest: "(fl1 = Leave () \<longrightarrow> fl = Leave () \<and> w' = w2) \<and>
        (\<forall>s. fl1 = Again s \<longrightarrow>
           (if f \<in> set fds then socket_branch f (fst s) (snd s) w2 = Some (fl, w')
            else fl = Again s \<and> w' = w2))"
      using assms sl pos fst
      by (auto simp: stream_body_def first_def[symmetric] split: flow.splits prod.splits if_splits)
    define socks where "socks = new_events w2 w'"
    have a2: "advances w2 w'"
      using rest by (cases fl1) (auto simp: advances_refl split: if_splits
                                      dest: socket_branch_advances)
    have ev: "new_events w w' = SysSelect (f + 1) sret fds # new_events w1 w2 @ socks"
      using new_events_trans[OF a0 advances_trans[OF a1 a2]] new_events_trans[OF a1 a2] e0
      by (simp add: socks_def)
    have same: "new_events v v = []" for v by (simp add: new_events_def)
    have sock: "(if f \<in> set fds \<and> fl1 \<noteq> Leave () then
                   socket_part f socks \<and>
                   (\<exists>g bs r e rest. socks = SysRead g bs r e # rest) \<and>
                   (fl = Leave () \<longleftrightarrow> socket_left socks)
                 else socks = [] \<and> (fl = Leave () \<longleftrightarrow> fl1 = Leave ()))"
    proof (cases fl1)
      case (Leave u)
      with rest show ?thesis by (simp add: socks_def same)
    next
      case (Again s)
      show ?thesis
      proof (cases "f \<in> set fds")
        case True
        with rest Again have "socket_branch f (fst s) (snd s) w2 = Some (fl, w')" by simp
        from socket_branch_part[OF this] True Again show ?thesis
          by (simp add: socks_def)
      next
        case False
        with rest Again show ?thesis by (simp add: socks_def same)
      qed
    qed
    have nl: "\<not> socket_left []" by (simp add: socket_left_def)
    show ?thesis
    proof (cases "0 \<in> set fds")
      case False
      then have "first = Some (Again (wbuf, rbuf), w1)" by (simp add: first_def)
      with fst have fl1: "fl1 = Again (wbuf, rbuf)" and w2: "w2 = w1" by simp_all
      have nil: "\<not> stdin_left []" by (simp add: stdin_left_def)
      from sock fl1 have "(if f \<in> set fds \<and> \<not> stdin_left [] then socket_part f socks
                           else socks = []) \<and>
                          ((fl = Leave ()) \<longleftrightarrow> stdin_left [] \<or> socket_left socks)"
        using nil nl by (auto split: if_splits)
      with False pos show ?thesis
        unfolding ev w2 same by simp
    next
      case True
      then have sb: "stdin_branch f wbuf rbuf w1 = Some (fl1, w2)"
        using fst by (simp add: first_def)
      have c1: "socks = [] \<or> \<not> write_on f (hd socks)"
        using sock by (auto split: if_splits)
      have c2: "fl1 = Leave () \<longrightarrow> socks = []"
        using sock by (auto split: if_splits)
      from stdin_branch_part[OF sb c1 c2]
      have part: "input_part f (new_events w1 w2 @ socks) = Some (new_events w1 w2, socks)"
        and left: "fl1 = Leave () \<longleftrightarrow> stdin_left (new_events w1 w2)"
        by simp_all
      from sock left
      have "(if f \<in> set fds \<and> \<not> stdin_left (new_events w1 w2) then socket_part f socks
             else socks = []) \<and>
            ((fl = Leave ()) \<longleftrightarrow> stdin_left (new_events w1 w2) \<or> socket_left socks)"
        using nl by (auto split: if_splits)
      with True pos part show ?thesis
        unfolding ev by simp
    qed
  qed
qed

text \<open>The events of a run of the loop are the events of its turns, one after the other:
  every turn but the last is a wake-up that goes on, and the last is a wake-up that
  leaves.\<close>

lemma stream_loop_wakeups:
  "stream_loop f wbuf rbuf w = Some w' \<Longrightarrow>
     \<exists>turns. new_events w w' = concat turns \<and> turns \<noteq> [] \<and>
       (\<forall>t \<in> set (butlast turns). wakeup f False t) \<and> wakeup f True (last turns)"
proof (induction f wbuf rbuf w rule: stream_loop.induct)
  case (1 f wbuf rbuf w)
  from "1.prems" obtain fl w1 where body: "stream_body f wbuf rbuf w = Some (fl, w1)"
    by (subst (asm) stream_loop.simps) (auto split: option.splits)
  note a = stream_body_advances(1)[OF body]
  note wk = stream_body_wakeup[OF body]
  show ?case
  proof (cases fl)
    case (Leave u)
    with "1.prems" body have "w' = w1"
      by (subst (asm) stream_loop.simps) simp
    with wk Leave have "new_events w w' = concat [new_events w w1] \<and> [new_events w w1] \<noteq> [] \<and>
       (\<forall>t \<in> set (butlast [new_events w w1]). wakeup f False t) \<and>
       wakeup f True (last [new_events w w1])"
      by simp
    then show ?thesis by (rule exI[where x = "[new_events w w1]"])
  next
    case (Again st)
    obtain wbuf1 rbuf1 where st: "st = (wbuf1, rbuf1)" by (cases st)
    with "1.prems" body Again have rec: "stream_loop f wbuf1 rbuf1 w1 = Some w'"
      by (subst (asm) stream_loop.simps) simp
    from "1.IH"[OF body refl Again[unfolded st] refl rec] obtain turns where
      t: "new_events w1 w' = concat turns" "turns \<noteq> []"
        "\<forall>t \<in> set (butlast turns). wakeup f False t" "wakeup f True (last turns)"
      by blast
    have split: "new_events w w' = new_events w w1 @ new_events w1 w'"
      using a stream_loop_advances[OF rec] by (rule new_events_trans)
    from wk Again have "wakeup f False (new_events w w1)" by simp
    with t split have "new_events w w' = concat (new_events w w1 # turns) \<and>
       new_events w w1 # turns \<noteq> [] \<and>
       (\<forall>t \<in> set (butlast (new_events w w1 # turns)). wakeup f False t) \<and>
       wakeup f True (last (new_events w w1 # turns))"
      by simp
    then show ?thesis by (rule exI[where x = "new_events w w1 # turns"])
  qed
qed


text \<open>When a turn returns. An answer of \<open>read\<close> after which the loop
  \<^verbatim>\<open>while ((rret = read(...)) == 1 && errno == EINTR) ;\<close> stops whatever \<open>errno\<close> holds: any
  answer but the delivery of a single byte. An answer is served by the engine's script
  when the script serves the number of bytes it delivers.\<close>

fun stops :: "rresult \<Rightarrow> bool" where
  "stops (Deliver bs) = (length bs \<noteq> 1)"
| "stops (RFail e) = True"

fun served :: "engine_reply list \<Rightarrow> rresult \<Rightarrow> bool" where
  "served script (Deliver bs) = serves (length (take 1024 bs)) script"
| "served script (RFail e) = True"

text \<open>Reads of the descriptor \<open>f\<close> leave every other script as it was.\<close>

definition reads_only :: "fd \<Rightarrow> world \<Rightarrow> world \<Rightarrow> bool" where
  "reads_only f w w' \<longleftrightarrow>
     wr_script w' = wr_script w \<and> send_script w' = send_script w \<and>
     receive_script w' = receive_script w \<and> select_script w' = select_script w \<and>
     (\<forall>g. g \<noteq> f \<longrightarrow> rd_script w' g = rd_script w g)"

lemma read_while_one_total:
  "rd_script w f = script \<Longrightarrow> \<exists>a \<in> set script. stops a \<Longrightarrow>
     \<exists>r buf' w'. read_while 1 f buf 1024 w = Some ((r, buf'), w') \<and> reads_only f w w' \<and>
       (r \<le> 0 \<or> (\<exists>bs. Deliver bs \<in> set script \<and> r = int (length (take 1024 bs))))"
proof (induction script arbitrary: w buf)
  case Nil
  then show ?case by simp
next
  case (Cons a rest)
  show ?case
  proof (cases a)
    case (RFail e)
    define w1 where "w1 = emit (SysRead f [] (-1) e)
                            (w\<lparr>rd_script := (rd_script w)(f := rest), errno := e\<rparr>)"
    have sr: "sys_read f buf 1024 w = Some ((-1, buf), w1)"
      using Cons.prems(1) RFail by (simp add: sys_read_def w1_def)
    have "reads_only f w w1" by (simp add: reads_only_def w1_def emit_def)
    moreover have "read_while 1 f buf 1024 w = Some ((-1, buf), w1)"
      using sr by (subst read_while.simps) simp
    ultimately show ?thesis by simp
  next
    case (Deliver bs)
    define got where "got = take 1024 bs"
    define w1 where "w1 = emit (SysRead f got (int (length got)) (errno w))
                            (w\<lparr>rd_script := (rd_script w)(f := rest)\<rparr>)"
    have sr: "sys_read f buf 1024 w =
                Some ((int (length got), got @ drop (length got) buf), w1)"
      using Cons.prems(1) Deliver by (simp add: sys_read_def w1_def got_def Let_def)
    have w1: "rd_script w1 f = rest" "reads_only f w w1"
      by (simp_all add: reads_only_def w1_def emit_def)
    show ?thesis
    proof (cases "int (length got) = 1 \<and> errno w1 = EINTR")
      case True
      then have "length bs = 1" by (simp add: got_def min_def split: if_splits)
      with Cons.prems(2) Deliver have "\<exists>a \<in> set rest. stops a" by simp
      from Cons.IH[OF w1(1) this, of "got @ drop (length got) buf"] obtain r buf' w' where
        rec: "read_while 1 f (got @ drop (length got) buf) 1024 w1 = Some ((r, buf'), w')"
        and ro: "reads_only f w1 w'"
        and r: "r \<le> 0 \<or> (\<exists>bs. Deliver bs \<in> set rest \<and> r = int (length (take 1024 bs)))"
        by blast
      have "read_while 1 f buf 1024 w = Some ((r, buf'), w')"
        using sr True rec by (subst read_while.simps) simp
      moreover have "reads_only f w w'"
        using w1(2) ro by (simp add: reads_only_def)
      moreover have "r \<le> 0 \<or> (\<exists>bs. Deliver bs \<in> set (a # rest) \<and> r = int (length (take 1024 bs)))"
        using r by auto
      ultimately show ?thesis by blast
    next
      case False
      then have "read_while 1 f buf 1024 w =
                   Some ((int (length got), got @ drop (length got) buf), w1)"
        using sr by (subst read_while.simps) auto
      moreover have "\<exists>bs. Deliver bs \<in> set (a # rest) \<and> int (length got) = int (length (take 1024 bs))"
        using Deliver by (auto simp: got_def)
      ultimately show ?thesis using w1(2) by blast
    qed
  qed
qed

text \<open>Writes to the descriptor \<open>f\<close> leave the answers of every other descriptor.\<close>

lemma sys_write_other:
  "sys_write f data len w = Some (r, w1) \<Longrightarrow> g \<noteq> f \<Longrightarrow> wr_script w1 g = wr_script w g"
  by (auto simp: sys_write_def emit_def Let_def split: list.splits wresult.splits)

lemma write_retry_other:
  "write_retry f data len w = Some (r, w') \<Longrightarrow> g \<noteq> f \<Longrightarrow> wr_script w' g = wr_script w g"
proof (induction f data len w rule: write_retry.induct)
  case (1 f data len w)
  from "1.prems"(1) obtain wret w1 where sw: "sys_write f data len w = Some (wret, w1)"
    by (subst (asm) write_retry.simps) (auto split: option.splits)
  note o = sys_write_other[OF sw "1.prems"(2)]
  show ?case
  proof (cases "wret = -1 \<and> errno w1 = EINTR")
    case True
    with "1.prems"(1) sw have "write_retry f data len w1 = Some (r, w')"
      by (subst (asm) write_retry.simps) simp
    from "1.IH"[OF sw refl True this "1.prems"(2)] o show ?thesis by simp
  next
    case False
    with "1.prems"(1) sw have "w' = w1"
      by (subst (asm) write_retry.simps) auto
    with o show ?thesis by simp
  qed
qed

lemma write_all_other:
  "write_all f data len w = Some (r, w') \<Longrightarrow> g \<noteq> f \<Longrightarrow> wr_script w' g = wr_script w g"
proof (induction f data len w rule: write_all.induct)
  case (1 f data len w)
  show ?case
  proof (cases "len = 0")
    case True
    with "1.prems"(1) have "w' = w"
      by (subst (asm) write_all.simps) simp
    then show ?thesis by simp
  next
    case False
    with "1.prems"(1) obtain wret w1 where wr: "write_retry f data len w = Some (wret, w1)"
      by (subst (asm) write_all.simps) (auto split: option.splits)
    note o = write_retry_other[OF wr "1.prems"(2)]
    show ?thesis
    proof (cases "wret \<le> 0")
      case True
      with "1.prems"(1) False wr have "w' = w1"
        by (subst (asm) write_all.simps) simp
      with o show ?thesis by simp
    next
      case pos: False
      with "1.prems"(1) False wr
      have rec: "write_all f (drop (nat wret) data) (len - nat wret) w1 = Some (r, w')"
        by (subst (asm) write_all.simps) simp
      from "1.IH"[OF False wr refl pos rec "1.prems"(2)] o show ?thesis by simp
    qed
  qed
qed

lemma stdin_branch_total:
  assumes rd: "\<exists>a \<in> set (rd_script w 0). stops a" and sn: "send_script w \<noteq> []"
    and wr: "off wbuf + length (reply_output (hd (send_script w))) \<le> answers (wr_script w f)"
  shows "\<exists>fl w'. stdin_branch f wbuf rbuf w = Some (fl, w') \<and>
           receive_script w' = receive_script w \<and>
           (\<forall>g. g \<noteq> 0 \<longrightarrow> rd_script w' g = rd_script w g) \<and>
           (\<forall>g. g \<noteq> f \<longrightarrow> wr_script w' g = wr_script w g)"
proof -
  from read_while_one_total[OF refl rd, of rbuf] obtain rret rbuf1 w1 where
    r1: "read_while 1 0 rbuf 1024 w = Some ((rret, rbuf1), w1)" and ro: "reads_only 0 w w1"
    by blast
  from sn obtain a rest where sc: "send_script w = a # rest" by (cases "send_script w") auto
  define wbuf1 where "wbuf1 = buffer_push wbuf (reply_output a)"
  define w2 where "w2 = emit (PtlsSend (take (to_size_t rret) rbuf1) (to_size_t rret) (reply_ret a))
                          (w1\<lparr>send_script := rest\<rparr>)"
  have s1: "ptls_send wbuf rbuf1 (to_size_t rret) w1 = Some ((reply_ret a, wbuf1), w2)"
    using ro sc by (simp add: ptls_send_def reads_only_def wbuf1_def w2_def)
  have f2: "receive_script w2 = receive_script w" "wr_script w2 = wr_script w"
    "\<forall>g. g \<noteq> 0 \<longrightarrow> rd_script w2 g = rd_script w g"
    using ro by (simp_all add: w2_def emit_def reads_only_def)
  show ?thesis
  proof (cases "reply_ret a = 0")
    case False
    with r1 s1 have "stdin_branch f wbuf rbuf w =
        Some (Leave (), emit (Stderr ''ptls_send'' (reply_ret a)) w2)"
      by (simp add: stdin_branch_def)
    with f2 show ?thesis by (simp add: emit_def)
  next
    case True
    have "off wbuf1 \<le> answers (wr_script w2 f)"
      using wr sc f2 by (simp add: wbuf1_def buffer_push_def)
    from write_all_total[OF this] obtain wa w3 where
      wa: "write_all f (base wbuf1) (off wbuf1) w2 = Some (wa, w3)"
      by blast
    from write_all_writes_only[OF wa] f2
    have f3: "receive_script w3 = receive_script w"
      "\<forall>g. g \<noteq> 0 \<longrightarrow> rd_script w3 g = rd_script w g"
      by (simp_all add: writes_only_def)
    have o3: "\<forall>g. g \<noteq> f \<longrightarrow> wr_script w3 g = wr_script w g"
      using write_all_other[OF wa] f2 by simp
    have "\<exists>fl. stdin_branch f wbuf rbuf w = Some (fl, w3)"
      using r1 s1 True wa by (simp add: stdin_branch_def)
    with f3 o3 show ?thesis by blast
  qed
qed

lemma socket_branch_total:
  assumes rd: "\<exists>a \<in> set (rd_script w f). stops a"
    and sv: "\<forall>a \<in> set (rd_script w f). served (receive_script w) a"
    and out: "output_total (receive_script w) \<le> answers (wr_script w 1)"
  shows "socket_branch f wbuf rbuf w \<noteq> None"
proof -
  from read_while_one_total[OF refl rd, of rbuf] obtain rret rbuf1 w1 where
    r1: "read_while 1 f rbuf 1024 w = Some ((rret, rbuf1), w1)" and ro: "reads_only f w w1"
    and r: "rret \<le> 0 \<or> (\<exists>bs. Deliver bs \<in> set (rd_script w f) \<and>
                            rret = int (length (take 1024 bs)))"
    by blast
  show ?thesis
  proof (cases "rret \<le> 0")
    case True
    with r1 show ?thesis by (simp add: socket_branch_def)
  next
    case False
    with r obtain bs where bs: "Deliver bs \<in> set (rd_script w f)"
      and rret: "rret = int (length (take 1024 bs))"
      by blast
    from sv bs have "served (receive_script w) (Deliver bs)" by blast
    then have "serves (to_size_t rret) (receive_script w1)"
      using ro by (simp add: rret to_size_t_def reads_only_def)
    moreover have "output_total (receive_script w1) \<le> answers (wr_script w1 1)"
      using out ro by (simp add: reads_only_def)
    ultimately obtain r' w' where
      "dp_loop (ptls_buffer_init (replicate 1024 0)) rbuf1 (to_size_t rret) w1 = Some (r', w')"
      using dp_loop_total[OF refl, of "to_size_t rret" w1 "ptls_buffer_init (replicate 1024 0)" rbuf1]
      by (auto simp: ptls_buffer_init_def)
    with r1 False show ?thesis
      by (simp add: socket_branch_def decrypt_and_print_def)
  qed
qed

text \<open>The scripts hold what a turn on the socket \<open>f\<close> may ask for: a result of \<open>select\<close>, a
  read of each descriptor that ends its loop, an answer of the sealing call and answers
  enough of the socket for its output, and for the pump an engine's script that serves
  what the socket delivers and answers enough of standard output.\<close>

definition turn_served :: "fd \<Rightarrow> ptls_buffer \<Rightarrow> world \<Rightarrow> bool" where
  "turn_served f wbuf w \<longleftrightarrow>
     f \<noteq> 0 \<and> f \<noteq> 1 \<and> select_script w \<noteq> [] \<and>
     list_ex stops (rd_script w 0) \<and> send_script w \<noteq> [] \<and>
     off wbuf + length (reply_output (hd (send_script w))) \<le> answers (wr_script w f) \<and>
     list_ex stops (rd_script w f) \<and> list_all (served (receive_script w)) (rd_script w f) \<and>
     output_total (receive_script w) \<le> answers (wr_script w 1)"

lemma stream_body_total:
  assumes "turn_served f wbuf w"
  shows "stream_body f wbuf rbuf w \<noteq> None"
proof -
  from assms have f: "f \<noteq> 0" "f \<noteq> 1" and sel: "select_script w \<noteq> []"
    and rd0: "\<exists>a \<in> set (rd_script w 0). stops a" and sn: "send_script w \<noteq> []"
    and wr: "off wbuf + length (reply_output (hd (send_script w))) \<le> answers (wr_script w f)"
    and rdf: "\<exists>a \<in> set (rd_script w f). stops a"
    and sv: "\<forall>a \<in> set (rd_script w f). served (receive_script w) a"
    and out: "output_total (receive_script w) \<le> answers (wr_script w 1)"
    by (simp_all add: turn_served_def list_ex_iff list_all_iff)
  from sel obtain sret fds w1 where sl: "sys_select (f + 1) [0, f] w = Some ((sret, fds), w1)"
    and k: "rd_script w1 = rd_script w" "send_script w1 = send_script w"
      "wr_script w1 = wr_script w" "receive_script w1 = receive_script w"
    by (cases "select_script w"; cases "hd (select_script w)")
       (auto simp: sys_select_def emit_def Let_def)
  show ?thesis
  proof (cases "sret \<le> 0")
    case True
    with sl show ?thesis by (simp add: stream_body_def)
  next
    case pos: False
    have first: "\<exists>fl w2. (if 0 \<in> set fds then stdin_branch f wbuf rbuf w1
                           else Some (Again (wbuf, rbuf), w1)) = Some (fl, w2) \<and>
                   receive_script w2 = receive_script w \<and> rd_script w2 f = rd_script w f \<and>
                   wr_script w2 1 = wr_script w 1"
    proof (cases "0 \<in> set fds")
      case True
      from stdin_branch_total[of w1 wbuf f rbuf] rd0 sn wr k f True show ?thesis
        by fastforce
    next
      case False
      with k show ?thesis by simp
    qed
    then obtain fl w2 where
      fst: "(if 0 \<in> set fds then stdin_branch f wbuf rbuf w1
             else Some (Again (wbuf, rbuf), w1)) = Some (fl, w2)"
      and k2: "receive_script w2 = receive_script w" "rd_script w2 f = rd_script w f"
        "wr_script w2 1 = wr_script w 1"
      by blast
    show ?thesis
    proof (cases fl)
      case (Leave u)
      with sl pos fst show ?thesis by (simp add: stream_body_def)
    next
      case (Again s)
      obtain wbuf1 rbuf1 where s: "s = (wbuf1, rbuf1)" by (cases s)
      have "socket_branch f wbuf1 rbuf1 w2 \<noteq> None"
        using socket_branch_total[of w2 f wbuf1 rbuf1] rdf sv out k2 by simp
      with sl pos fst Again s show ?thesis by (simp add: stream_body_def)
    qed
  qed
qed


text \<open>A turn that goes on after \<open>select\<close> reported both descriptors: the events of the
  branch of standard input, then those of the branch of the socket.\<close>

lemma stream_body_both:
  assumes body: "stream_body f wbuf rbuf w = Some (Again s, w')"
    and ev: "new_events w w' = SysSelect n sret fds # rest"
    and pos: "0 < sret" and in0: "0 \<in> set fds" and inf: "f \<in> set fds"
  shows "\<exists>rds inp m wrs rds' pump.
           rest = (rds @ PtlsSend inp m 0 # wrs) @ rds' @ pump \<and>
           rds \<noteq> [] \<and> (\<forall>e \<in> set rds. read_on 0 e) \<and> (\<forall>e \<in> set wrs. write_on f e) \<and>
           rds' \<noteq> [] \<and> (\<forall>e \<in> set rds'. read_on f e) \<and> (\<forall>e \<in> set pump. pump_event e)"
proof -
  from body obtain sret0 fds0 w1 where
    sl: "sys_select (f + 1) [0, f] w = Some ((sret0, fds0), w1)"
    by (auto simp: stream_body_def split: option.splits)
  note a0 = sys_select_advances[OF sl, THEN conjunct1]
  have a1: "advances w1 w'"
  proof (cases "sret0 \<le> 0")
    case True
    with body sl show ?thesis by (simp add: stream_body_def advances_refl)
  next
    case False
    define first where
      "first = (if 0 \<in> set fds0 then stdin_branch f wbuf rbuf w1
                else Some (Again (wbuf, rbuf), w1))"
    from body sl False obtain fl1 w2 where fst: "first = Some (fl1, w2)"
      by (auto simp: stream_body_def first_def split: option.splits if_splits)
    have a12: "advances w1 w2"
      using fst by (auto simp: first_def advances_refl split: if_splits dest: stdin_branch_advances)
    have "advances w2 w'"
      using body sl False fst
      by (auto simp: stream_body_def first_def[symmetric] advances_refl
               split: flow.splits prod.splits if_splits dest: socket_branch_advances)
    with a12 show ?thesis by (rule advances_trans)
  qed
  have "new_events w w' = SysSelect (f + 1) sret0 fds0 # new_events w1 w'"
    using new_events_trans[OF a0 a1] sys_select_events[OF sl] by simp
  with ev have eq: "sret0 = sret" "fds0 = fds" "rest = new_events w1 w'" by simp_all
  from body sl pos in0 eq obtain fl1 w2 where
    first: "stdin_branch f wbuf rbuf w1 = Some (fl1, w2)"
    by (auto simp: stream_body_def split: option.splits)
  from body sl pos in0 inf eq first obtain s1 where fl1: "fl1 = Again s1"
    by (cases fl1) (auto simp: stream_body_def)
  obtain wbuf1 rbuf1 where s1: "s1 = (wbuf1, rbuf1)" by (cases s1)
  from body have sb: "socket_branch f wbuf1 rbuf1 w2 = Some (Again s, w')"
    unfolding stream_body_def sl using pos in0 inf eq first fl1 s1 by simp
  from stdin_branch_Again[OF first[unfolded fl1]] obtain rds inp m wrs where
    e1: "new_events w1 w2 = rds @ PtlsSend inp m 0 # wrs" "rds \<noteq> []"
      "\<forall>e \<in> set rds. read_on 0 e" "\<forall>e \<in> set wrs. write_on f e"
    by blast
  from socket_branch_events[OF sb] obtain rds' pump where
    e2: "new_events w2 w' = rds' @ pump" "rds' \<noteq> []"
      "\<forall>e \<in> set rds'. read_on f e" "\<forall>e \<in> set pump. pump_event e"
    by blast
  have "rest = (rds @ PtlsSend inp m 0 # wrs) @ rds' @ pump"
    using new_events_trans[OF stdin_branch_advances[OF first] socket_branch_advances[OF sb]]
    by (simp add: eq e1(1) e2(1))
  with e1(2-4) e2(2-4) show ?thesis by blast
qed

text \<open>C7: every turn of the streaming loop that returns is one wake-up: one \<open>select\<close>;
  when it returns no positive count nothing more happens and the loop goes on; otherwise
  the branch of standard input is handled when descriptor 0 is reported (its reads, the
  sealing call, the writes to the socket), and only after it the branch of the socket when
  the socket is reported (its reads, then the pump), unless the first branch left for
  \<open>Exit\<close>; the socket is read on a wake-up that reports the socket alone, and neither
  branch runs for a descriptor that was not reported. The turn leaves for \<open>Exit\<close> exactly
  when one of the branches gave up. In particular a turn that goes on after both
  descriptors were reported has performed the outbound send and then the inbound receive.
  The events of a run of the loop are such wake-ups one after the other, all going on but
  the last. A turn returns whenever the scripts hold the answers it may ask for.\<close>

theorem both_branches_per_wakeup:
  "(stream_body f wbuf rbuf w = Some (fl, w') \<longrightarrow>
      wakeup f (fl = Leave ()) (new_events w w')) \<and>
   (stream_body f wbuf rbuf w = Some (Again s, w') \<and>
    new_events w w' = SysSelect n sret fds # rest \<and> 0 < sret \<and> 0 \<in> set fds \<and> f \<in> set fds \<longrightarrow>
      (\<exists>rds inp m wrs rds' pump.
         rest = (rds @ PtlsSend inp m 0 # wrs) @ rds' @ pump \<and>
         rds \<noteq> [] \<and> (\<forall>e \<in> set rds. read_on 0 e) \<and> (\<forall>e \<in> set wrs. write_on f e) \<and>
         rds' \<noteq> [] \<and> (\<forall>e \<in> set rds'. read_on f e) \<and> (\<forall>e \<in> set pump. pump_event e))) \<and>
   (stream_loop f wbuf rbuf w = Some v \<longrightarrow>
      (\<exists>turns. new_events w v = concat turns \<and> turns \<noteq> [] \<and>
         (\<forall>t \<in> set (butlast turns). wakeup f False t) \<and> wakeup f True (last turns))) \<and>
   (turn_served f wbuf w \<longrightarrow> stream_body f wbuf rbuf w \<noteq> None)"
proof (rule conjI[OF _ conjI[OF _ conjI]]; rule impI)
  assume "stream_body f wbuf rbuf w = Some (fl, w')"
  then show "wakeup f (fl = Leave ()) (new_events w w')" by (rule stream_body_wakeup)
next
  assume "stream_body f wbuf rbuf w = Some (Again s, w') \<and>
    new_events w w' = SysSelect n sret fds # rest \<and> 0 < sret \<and> 0 \<in> set fds \<and> f \<in> set fds"
  then show "\<exists>rds inp m wrs rds' pump.
         rest = (rds @ PtlsSend inp m 0 # wrs) @ rds' @ pump \<and>
         rds \<noteq> [] \<and> (\<forall>e \<in> set rds. read_on 0 e) \<and> (\<forall>e \<in> set wrs. write_on f e) \<and>
         rds' \<noteq> [] \<and> (\<forall>e \<in> set rds'. read_on f e) \<and> (\<forall>e \<in> set pump. pump_event e)"
    using stream_body_both[of f wbuf rbuf w s w' n sret fds rest] by blast
next
  assume "stream_loop f wbuf rbuf w = Some v"
  then show "\<exists>turns. new_events w v = concat turns \<and> turns \<noteq> [] \<and>
         (\<forall>t \<in> set (butlast turns). wakeup f False t) \<and> wakeup f True (last turns)"
    by (rule stream_loop_wakeups)
next
  assume "turn_served f wbuf w"
  then show "stream_body f wbuf rbuf w \<noteq> None" by (rule stream_body_total)
qed

text \<open>Both descriptors are ready: standard input has two bytes, which the engine seals
  into three, and the socket has two bytes, which the engine unseals into one.\<close>

definition both_ready :: world where
  "both_ready =
     idle\<lparr>select_script := [Ready [0, 3]],
          rd_script := (\<lambda>_. [])(0 := [Deliver [104, 105]], 3 := [Deliver [50, 51]]),
          send_script := [reply 0 0 [1, 2, 3]],
          wr_script := (\<lambda>_. [])(3 := [Accept 3, Accept 3, Accept 3], 1 := [Accept 1]),
          receive_script := [reply 0 2 [72]]\<rparr>"

text \<open>Two turns: the socket alone is ready and delivers two bytes; then both descriptors
  are ready, and the socket is at its end.\<close>

definition two_turns :: world where
  "two_turns =
     idle\<lparr>select_script := [Ready [3], Ready [0, 3]],
          rd_script := (\<lambda>_. [])(0 := [Deliver [104, 105]], 3 := [Deliver [50, 51], Deliver []]),
          send_script := [reply 0 0 [1, 2, 3]],
          wr_script := (\<lambda>_. [])(3 := [Accept 3, Accept 3, Accept 3], 1 := [Accept 1]),
          receive_script := [reply 0 2 [72]]\<rparr>"

text \<open>How a turn ends (\<open>True\<close> for \<open>Exit\<close>) and the events it added.\<close>

definition flow_outcome ::
  "world \<Rightarrow> ((unit, ptls_buffer \<times> byte list) flow \<times> world) option \<Rightarrow> (bool \<times> event list) option" where
  "flow_outcome w res =
     map_option (\<lambda>(fl, w'). (case fl of Leave u \<Rightarrow> True | Again s \<Rightarrow> False, new_events w w')) res"

lemma flow_outcome_AgainD:
  "flow_outcome w res = Some (False, evs) \<Longrightarrow>
     \<exists>s w'. res = Some (Again s, w') \<and> new_events w w' = evs"
proof -
  assume a: "flow_outcome w res = Some (False, evs)"
  then obtain fl w' where res: "res = Some (fl, w')"
    by (auto simp: flow_outcome_def)
  with a show ?thesis by (cases fl) (auto simp: flow_outcome_def)
qed

lemma both_ready_turn:
  "flow_outcome both_ready
     (stream_body 3 (ptls_buffer_init (replicate 1024 0)) (replicate 1024 0) both_ready) =
     Some (False, [SysSelect 4 2 [0, 3],
                   SysRead 0 [104, 105] 2 0, PtlsSend [104, 105] 2 0, SysWrite 3 [1, 2, 3] 3 0,
                   SysRead 3 [50, 51] 2 0, PtlsReceive [50, 51] 0 2 [72], SysWrite 1 [72] 1 0])"
  by code_simp

lemma socket_only_turn:
  "flow_outcome two_turns
     (stream_body 3 (ptls_buffer_init (replicate 1024 0)) (replicate 1024 0) two_turns) =
     Some (False, [SysSelect 4 1 [3],
                   SysRead 3 [50, 51] 2 0, PtlsReceive [50, 51] 0 2 [72], SysWrite 1 [72] 1 0])"
  by code_simp

lemma two_turns_run:
  "map_option (new_events two_turns)
     (stream_loop 3 (ptls_buffer_init (replicate 1024 0)) (replicate 1024 0) two_turns) =
     Some [SysSelect 4 1 [3],
           SysRead 3 [50, 51] 2 0, PtlsReceive [50, 51] 0 2 [72], SysWrite 1 [72] 1 0,
           SysSelect 4 2 [0, 3],
           SysRead 0 [104, 105] 2 0, PtlsSend [104, 105] 2 0, SysWrite 3 [1, 2, 3] 3 0,
           SysRead 3 [] 0 0]"
  by code_simp

lemma both_ready_served:
  "turn_served 3 (ptls_buffer_init (replicate 1024 0)) both_ready"
  by (simp add: turn_served_def both_ready_def idle_def reply_def ptls_buffer_init_def
        output_total_def answers_def)

theorem both_branches_per_wakeup_witness:
  "(\<exists>s w'. stream_body 3 (ptls_buffer_init (replicate 1024 0)) (replicate 1024 0) both_ready =
       Some (Again s, w') \<and>
     new_events both_ready w' =
       [SysSelect 4 2 [0, 3],
        SysRead 0 [104, 105] 2 0, PtlsSend [104, 105] 2 0, SysWrite 3 [1, 2, 3] 3 0,
        SysRead 3 [50, 51] 2 0, PtlsReceive [50, 51] 0 2 [72], SysWrite 1 [72] 1 0] \<and>
     wakeup 3 False (new_events both_ready w') \<and>
     (\<exists>rds inp m wrs rds' pump.
        tl (new_events both_ready w') = (rds @ PtlsSend inp m 0 # wrs) @ rds' @ pump \<and>
        rds \<noteq> [] \<and> rds' \<noteq> [])) \<and>
   turn_served 3 (ptls_buffer_init (replicate 1024 0)) both_ready \<and>
   (\<exists>s w'. stream_body 3 (ptls_buffer_init (replicate 1024 0)) (replicate 1024 0) two_turns =
       Some (Again s, w') \<and>
     new_events two_turns w' =
       [SysSelect 4 1 [3],
        SysRead 3 [50, 51] 2 0, PtlsReceive [50, 51] 0 2 [72], SysWrite 1 [72] 1 0] \<and>
     wakeup 3 False (new_events two_turns w')) \<and>
   (\<exists>v turns. stream_loop 3 (ptls_buffer_init (replicate 1024 0)) (replicate 1024 0) two_turns =
       Some v \<and>
     new_events two_turns v =
       [SysSelect 4 1 [3],
        SysRead 3 [50, 51] 2 0, PtlsReceive [50, 51] 0 2 [72], SysWrite 1 [72] 1 0,
        SysSelect 4 2 [0, 3],
        SysRead 0 [104, 105] 2 0, PtlsSend [104, 105] 2 0, SysWrite 3 [1, 2, 3] 3 0,
        SysRead 3 [] 0 0] \<and>
     new_events two_turns v = concat turns \<and> turns \<noteq> [] \<and>
     wakeup 3 True (last turns))"
proof -
  let ?b = "ptls_buffer_init (replicate 1024 0)" and ?r = "replicate 1024 (0 :: byte)"
  note inst = both_branches_per_wakeup[where f = 3 and wbuf = ?b and rbuf = ?r]
  have srv: "turn_served 3 ?b both_ready" by (rule both_ready_served)
  with inst[where w = both_ready] have "stream_body 3 ?b ?r both_ready \<noteq> None" by blast
  with flow_outcome_AgainD[OF both_ready_turn] obtain s w' where
    body: "stream_body 3 ?b ?r both_ready = Some (Again s, w')"
    and ev: "new_events both_ready w' =
       [SysSelect 4 2 [0, 3],
        SysRead 0 [104, 105] 2 0, PtlsSend [104, 105] 2 0, SysWrite 3 [1, 2, 3] 3 0,
        SysRead 3 [50, 51] 2 0, PtlsReceive [50, 51] 0 2 [72], SysWrite 1 [72] 1 0]"
    by blast
  from inst[where w = both_ready and fl = "Again s" and w' = w'] body
  have wk: "wakeup 3 False (new_events both_ready w')" by simp
  have ev': "new_events both_ready w' = SysSelect (3 + 1) 2 [0, 3] #
       [SysRead 0 [104, 105] 2 0, PtlsSend [104, 105] 2 0, SysWrite 3 [1, 2, 3] 3 0,
        SysRead 3 [50, 51] 2 0, PtlsReceive [50, 51] 0 2 [72], SysWrite 1 [72] 1 0]"
    by (simp add: ev)
  from inst[where w = both_ready and s = s and w' = w' and n = "3 + 1" and sret = 2
         and fds = "[0, 3]"
         and rest = "[SysRead 0 [104, 105] 2 0, PtlsSend [104, 105] 2 0, SysWrite 3 [1, 2, 3] 3 0,
        SysRead 3 [50, 51] 2 0, PtlsReceive [50, 51] 0 2 [72], SysWrite 1 [72] 1 0]"]
       body ev'
  have "\<exists>rds inp m wrs rds' pump.
        [SysRead 0 [104, 105] 2 0, PtlsSend [104, 105] 2 0, SysWrite 3 [1, 2, 3] 3 0,
         SysRead 3 [50, 51] 2 0, PtlsReceive [50, 51] 0 2 [72], SysWrite 1 [72] 1 0] =
          (rds @ PtlsSend inp m 0 # wrs) @ rds' @ pump \<and>
        rds \<noteq> [] \<and> rds' \<noteq> []"
    by simp blast
  then have both: "\<exists>rds inp m wrs rds' pump.
        tl (new_events both_ready w') = (rds @ PtlsSend inp m 0 # wrs) @ rds' @ pump \<and>
        rds \<noteq> [] \<and> rds' \<noteq> []"
    by (simp add: ev)
  from flow_outcome_AgainD[OF socket_only_turn] obtain s2 w2 where
    body2: "stream_body 3 ?b ?r two_turns = Some (Again s2, w2)"
    and ev2: "new_events two_turns w2 =
       [SysSelect 4 1 [3],
        SysRead 3 [50, 51] 2 0, PtlsReceive [50, 51] 0 2 [72], SysWrite 1 [72] 1 0]"
    by blast
  from inst[where w = two_turns and fl = "Again s2" and w' = w2] body2
  have wk2: "wakeup 3 False (new_events two_turns w2)" by simp
  from two_turns_run obtain v where
    run: "stream_loop 3 ?b ?r two_turns = Some v"
    and ev3: "new_events two_turns v =
       [SysSelect 4 1 [3],
        SysRead 3 [50, 51] 2 0, PtlsReceive [50, 51] 0 2 [72], SysWrite 1 [72] 1 0,
        SysSelect 4 2 [0, 3],
        SysRead 0 [104, 105] 2 0, PtlsSend [104, 105] 2 0, SysWrite 3 [1, 2, 3] 3 0,
        SysRead 3 [] 0 0]"
    by auto
  from inst[where w = two_turns and v = v] run obtain turns where
    turns: "new_events two_turns v = concat turns" "turns \<noteq> []" "wakeup 3 True (last turns)"
    by blast
  from body ev wk both srv body2 ev2 wk2 run ev3 turns show ?thesis by blast
qed

end
